theory Spec2Isabelle
  imports Main
begin

section \<open>Data model\<close>

text \<open>
  The module \<^verbatim>\<open>src/thin-gifler.js\<close> has two classes that carry the engineering:
  \<^verbatim>\<open>Decoder\<close>, which turns a GIF reader into a list of frames, and \<^verbatim>\<open>Animator\<close>,
  which plays the frames on a canvas through \<^verbatim>\<open>setTimeout\<close> and
  \<^verbatim>\<open>requestAnimationFrame\<close>.

  A pixel buffer (\<^verbatim>\<open>Uint8ClampedArray\<close>, or the pixels of a canvas) is a list of
  bytes, each a natural number. JavaScript numbers are modelled by \<open>int\<close> and
  \<open>nat\<close>: every number the scheduler computes is a sum or difference of
  millisecond timestamps and frame delays, which are integers far below \<open>2^53\<close>.
\<close>

datatype error = TypeError | FrameIndexOutOfRange

type_synonym canvas = "nat list"

text \<open>
  \<open>frame_info\<close> is the object returned by \<^verbatim>\<open>reader.frameInfo\<close> (the fields the
  module reads: \<^verbatim>\<open>x\<close>, \<^verbatim>\<open>y\<close>, \<^verbatim>\<open>width\<close>, \<^verbatim>\<open>height\<close>, \<^verbatim>\<open>delay\<close>,
  \<^verbatim>\<open>disposal\<close>). A frame is that object after \<^verbatim>\<open>Decoder.decodeFrame\<close> has added
  \<^verbatim>\<open>pixels\<close>; the default frame hook adds \<^verbatim>\<open>buffer\<close>, absent until the frame is
  first shown.
\<close>

record frame_info =
  frame_x :: nat
  frame_y :: nat
  frame_width :: nat
  frame_height :: nat
  delay :: int
  disposal :: nat

record frame = frame_info +
  pixels :: "nat list"
  buffer :: "canvas option"

text \<open>
  The field \<^verbatim>\<open>disposeFrame\<close> of the animator holds a closure or \<^verbatim>\<open>null\<close>. The
  source creates two closures only: one clears the canvas, the other puts back the
  image data it captured.
\<close>

datatype dispose = ClearRect | PutImageData canvas

text \<open>
  What the animator does to its surroundings, in the order it does it: the calls of
  \<^verbatim>\<open>setTimeout(this._nextFrame, d)\<close> with their delay, the calls of
  \<^verbatim>\<open>requestAnimationFrame(this._nextFrameRender)\<close>, the calls of the frame hook
  \<^verbatim>\<open>onFrame\<close> with the frame index, and inside the default frame hook the execution
  of the pending disposal closure, the snapshot \<^verbatim>\<open>ctx.getImageData\<close> and the call of
  \<^verbatim>\<open>onDrawFrame\<close> with the frame index.
\<close>

datatype effect =
  SetTimeout int
  | RequestAnimationFrame
  | OnFrame nat
  | DisposeFrame dispose
  | GetImageData
  | OnDrawFrame nat

text \<open>
  The state of one \<^verbatim>\<open>Animator\<close> together with the part of the browser it talks to.
  \<open>frames\<close> to \<open>disposeFrame\<close> are the fields of the object (\<^verbatim>\<open>_frames\<close>,
  \<^verbatim>\<open>width\<close>, \<^verbatim>\<open>height\<close>, \<^verbatim>\<open>_loopCount\<close>, \<^verbatim>\<open>_loops\<close>, \<^verbatim>\<open>_frameIndex\<close>,
  \<^verbatim>\<open>_running\<close>, \<^verbatim>\<open>_lastTime\<close>, \<^verbatim>\<open>_delayCompensation\<close>, \<^verbatim>\<open>disposeFrame\<close>).
  \<^verbatim>\<open>_frameIndex\<close> and \<^verbatim>\<open>_loops\<close> are only ever set to \<open>0\<close> or incremented, and
  \<^verbatim>\<open>_loopCount\<close> is a count read from the file, so the three are naturals. (A file
  without a loop extension makes the reader return \<^verbatim>\<open>null\<close>; the two comparisons in
  \<^verbatim>\<open>_advanceFrame\<close> then come out as they do for 0, so \<^verbatim>\<open>null\<close> is modelled by 0.)
  \<^verbatim>\<open>_lastTime\<close> and \<^verbatim>\<open>_delayCompensation\<close> are not assigned by the constructor; they
  are read only while \<^verbatim>\<open>_running\<close> is true, which only \<^verbatim>\<open>start\<close> makes true, after
  assigning both.

  \<open>canvas\<close> is the content of the canvas of \<^verbatim>\<open>animateInCanvas\<close>. \<open>clockReads\<close>
  counts the evaluations of \<^verbatim>\<open>new Date().valueOf()\<close> so far, \<open>timeouts\<close> holds the
  delays of the pending \<^verbatim>\<open>setTimeout\<close> callbacks, \<open>rafs\<close> is the number of pending
  \<^verbatim>\<open>requestAnimationFrame\<close> callbacks, and \<open>trace\<close> is the log of effects.
\<close>

record world =
  frames :: "frame list"
  gif_width :: nat
  gif_height :: nat
  loopCount :: nat
  loops :: nat
  frameIndex :: nat
  running :: bool
  lastTime :: int
  delayCompensation :: int
  disposeFrame :: "dispose option"
  canvas :: canvas
  clockReads :: nat
  timeouts :: "int list"
  rafs :: nat
  trace :: "effect list"

text \<open>
  What the browser and the caller supply: \<open>clock k\<close> is the value of the \<open>k\<close>-th
  evaluation of \<^verbatim>\<open>new Date().valueOf()\<close> (any sequence of integers, monotone or not);
  \<open>bufferCanvas\<close> stands for the DOM calls of \<^verbatim>\<open>Animator.createBufferCanvas\<close>, which
  build an off-screen canvas from a frame and the GIF's width and height;
  \<open>onDrawFrame\<close> is the drawing callback passed to \<^verbatim>\<open>ThinGifler.frames\<close>, taken to
  act on the canvas only. The frame hook \<^verbatim>\<open>onFrame\<close> is the one that
  \<^verbatim>\<open>animateInCanvas\<close> installs, as it always is for an animator made by \<^verbatim>\<open>ThinGifler\<close>.
\<close>

record host =
  clock :: "nat \<Rightarrow> int"
  bufferCanvas :: "frame \<Rightarrow> nat \<Rightarrow> nat \<Rightarrow> canvas"
  onDrawFrame :: "canvas \<Rightarrow> frame \<Rightarrow> nat \<Rightarrow> canvas"

section \<open>Animator\<close>

text \<open>The constructor, given the decoded frames and the reader's size and loop count.\<close>

definition new_animator :: "frame list \<Rightarrow> nat \<Rightarrow> nat \<Rightarrow> nat \<Rightarrow> canvas \<Rightarrow> world" where
  "new_animator fs w h lc cv =
     \<lparr>frames = fs, gif_width = w, gif_height = h, loopCount = lc, loops = 0,
      frameIndex = 0, running = False, lastTime = 0, delayCompensation = 0,
      disposeFrame = None, canvas = cv, clockReads = 0, timeouts = [], rafs = 0,
      trace = []\<rparr>"

text \<open>
  The two browser calls of the animator: \<^verbatim>\<open>setTimeout(this._nextFrame, d)\<close> and
  \<^verbatim>\<open>requestAnimationFrame(this._nextFrameRender)\<close>. Each adds a pending callback
  and is logged.
\<close>

definition setTimeout :: "int \<Rightarrow> world \<Rightarrow> world" where
  "setTimeout d w = w\<lparr>timeouts := timeouts w @ [d], trace := trace w @ [SetTimeout d]\<rparr>"

definition requestAnimationFrame :: "world \<Rightarrow> world" where
  "requestAnimationFrame w = w\<lparr>rafs := Suc (rafs w), trace := trace w @ [RequestAnimationFrame]\<rparr>"

definition start :: "host \<Rightarrow> world \<Rightarrow> world" where
  "start h w =
     setTimeout 0
       (w\<lparr>lastTime := clock h (clockReads w),
          clockReads := Suc (clockReads w),
          delayCompensation := 0,
          running := True\<rparr>)"

definition stop :: "world \<Rightarrow> world" where
  "stop w = w\<lparr>running := False\<rparr>"

definition reset :: "world \<Rightarrow> world" where
  "reset w = w\<lparr>frameIndex := 0, loops := 0\<rparr>"

definition nextFrame :: "world \<Rightarrow> world" where
  "nextFrame w = requestAnimationFrame w"

definition advanceFrame :: "world \<Rightarrow> world" where
  "advanceFrame w =
     (let w1 = w\<lparr>frameIndex := frameIndex w + 1\<rparr> in
      if frameIndex w1 \<ge> length (frames w1) then
        (if loopCount w1 \<noteq> 0 \<and> loopCount w1 = loops w1 then stop w1
         else w1\<lparr>frameIndex := 0, loops := loops w1 + 1\<rparr>)
      else w1)"

text \<open>
  One pass through the body of the \<^verbatim>\<open>while\<close> loop of \<^verbatim>\<open>_enqueueNextFrame\<close> up to
  the test of \<^verbatim>\<open>actualDelay\<close>: the clock is read, the bookkeeping is updated, and the
  delay for the frame at \<^verbatim>\<open>_frameIndex\<close> is computed.
\<close>

definition compensate :: "host \<Rightarrow> world \<Rightarrow> int \<times> world" where
  "compensate h w =
     (let frame = frames w ! frameIndex w;
          delta = clock h (clockReads w) - lastTime w;
          w1 = w\<lparr>clockReads := Suc (clockReads w),
                 lastTime := lastTime w + delta,
                 delayCompensation := delayCompensation w + delta\<rparr>;
          frameDelay = delay frame * 10;
          actualDelay = frameDelay - delayCompensation w1;
          w2 = w1\<lparr>delayCompensation := delayCompensation w1 - frameDelay\<rparr>
      in (actualDelay, w2))"

text \<open>
  The \<^verbatim>\<open>while (this._running)\<close> loop. It may run forever (every frame with delay 0,
  no loop limit and time already spent), so it is a partial function: \<open>None\<close> is
  "does not return". Reading \<^verbatim>\<open>frame.delay\<close> of a missing frame throws.
\<close>

partial_function (option) enqueue_loop :: "host \<Rightarrow> world \<Rightarrow> (error + world) option" where
  "enqueue_loop h w =
     (if running w then
        (if frameIndex w < length (frames w) then
           (if fst (compensate h w) < 0
            then enqueue_loop h (advanceFrame (snd (compensate h w)))
            else Some (Inr (setTimeout (fst (compensate h w)) (snd (compensate h w)))))
         else Some (Inl TypeError))
      else Some (Inr w))"

declare enqueue_loop.simps [code]

definition enqueueNextFrame :: "host \<Rightarrow> world \<Rightarrow> (error + world) option" where
  "enqueueNextFrame h w = enqueue_loop h (advanceFrame w)"

text \<open>
  The frame hook that \<^verbatim>\<open>animateInCanvas\<close> installs. It is called with the frame
  object and its index; the frame object is the element of \<^verbatim>\<open>_frames\<close>, so creating
  its buffer changes that element. Its four steps are: create the buffer if absent,
  run the pending disposal closure if there is one, install the closure chosen by
  \<^verbatim>\<open>frame.disposal\<close> (2 clears the canvas, 3 puts back the image data read at this
  point, anything else installs \<^verbatim>\<open>null\<close>), and draw the frame.
\<close>

definition run_dispose :: "dispose \<Rightarrow> canvas \<Rightarrow> canvas" where
  "run_dispose d cv = (case d of ClearRect \<Rightarrow> map (\<lambda>_. 0) cv | PutImageData saved \<Rightarrow> saved)"

definition lazyBuffer :: "host \<Rightarrow> world \<Rightarrow> frame \<Rightarrow> frame" where
  "lazyBuffer h w frame =
     (if buffer frame = None
      then frame\<lparr>buffer := Some (bufferCanvas h frame (gif_width w) (gif_height w))\<rparr>
      else frame)"

definition disposePending :: "world \<Rightarrow> world" where
  "disposePending w =
     (case disposeFrame w of
        Some d \<Rightarrow> w\<lparr>canvas := run_dispose d (canvas w), trace := trace w @ [DisposeFrame d]\<rparr>
      | None \<Rightarrow> w)"

definition installDisposal :: "frame \<Rightarrow> world \<Rightarrow> world" where
  "installDisposal frame w =
     (if disposal frame = 2 then w\<lparr>disposeFrame := Some ClearRect\<rparr>
      else if disposal frame = 3 then
        w\<lparr>disposeFrame := Some (PutImageData (canvas w)), trace := trace w @ [GetImageData]\<rparr>
      else w\<lparr>disposeFrame := None\<rparr>)"

definition onFrame :: "host \<Rightarrow> frame \<Rightarrow> nat \<Rightarrow> world \<Rightarrow> world" where
  "onFrame h frame0 i w =
     (let frame = lazyBuffer h w frame0;
          w1 = w\<lparr>frames := (frames w)[i := frame]\<rparr>;
          w2 = disposePending w1;
          w3 = installDisposal frame w2
      in w3\<lparr>canvas := onDrawFrame h (canvas w3) frame i,
            trace := trace w3 @ [OnDrawFrame i]\<rparr>)"

text \<open>
  \<^verbatim>\<open>_nextFrameRender\<close>, the callback of \<^verbatim>\<open>requestAnimationFrame\<close>. When
  \<^verbatim>\<open>_frameIndex\<close> is past the end, \<^verbatim>\<open>this._frames[this._frameIndex]\<close> is
  \<^verbatim>\<open>undefined\<close> and the hook throws on \<^verbatim>\<open>frame.buffer\<close>.
\<close>

definition nextFrameRender :: "host \<Rightarrow> world \<Rightarrow> (error + world) option" where
  "nextFrameRender h w =
     (if \<not> running w then Some (Inr w)
      else if frameIndex w < length (frames w) then
        enqueueNextFrame h
          (onFrame h (frames w ! frameIndex w) (frameIndex w)
             (w\<lparr>trace := trace w @ [OnFrame (frameIndex w)]\<rparr>))
      else Some (Inl TypeError))"

section \<open>The event loop\<close>

text \<open>
  JavaScript runs one callback at a time. Between callbacks the page may call
  \<^verbatim>\<open>start\<close>, \<^verbatim>\<open>stop\<close> or \<^verbatim>\<open>reset\<close>, a pending timeout may fire (which runs
  \<^verbatim>\<open>_nextFrame\<close>) and a pending animation-frame callback may fire (which runs
  \<^verbatim>\<open>_nextFrameRender\<close>). \<open>TimeoutFires i\<close> fires the \<open>i\<close>-th pending timeout; an event
  for a callback that is not pending changes nothing.
\<close>

datatype event = Start | Stop | Reset | TimeoutFires nat | FrameFires

definition fire :: "host \<Rightarrow> event \<Rightarrow> world \<Rightarrow> (error + world) option" where
  "fire h e w =
     (case e of
        Start \<Rightarrow> Some (Inr (start h w))
      | Stop \<Rightarrow> Some (Inr (stop w))
      | Reset \<Rightarrow> Some (Inr (reset w))
      | TimeoutFires i \<Rightarrow>
          (if i < length (timeouts w)
           then Some (Inr (nextFrame (w\<lparr>timeouts := take i (timeouts w) @ drop (Suc i) (timeouts w)\<rparr>)))
           else Some (Inr w))
      | FrameFires \<Rightarrow>
          (if 0 < rafs w then nextFrameRender h (w\<lparr>rafs := rafs w - 1\<rparr>)
           else Some (Inr w)))"

text \<open>A sequence of events; an exception or a callback that never returns ends it.\<close>

fun run :: "host \<Rightarrow> event list \<Rightarrow> world \<Rightarrow> (error + world) option" where
  "run h [] w = Some (Inr w)"
| "run h (e # es) w =
     (case fire h e w of
        None \<Rightarrow> None
      | Some (Inl err) \<Rightarrow> Some (Inl err)
      | Some (Inr w') \<Rightarrow> run h es w')"

text \<open>
  One tick of an animation with a single chain of callbacks: the pending timeout fires,
  then the animation-frame callback it requested.
\<close>

definition tick :: "event list" where
  "tick = [TimeoutFires 0, FrameFires]"

fun ticks :: "nat \<Rightarrow> event list" where
  "ticks 0 = []"
| "ticks (Suc n) = tick @ ticks n"

text \<open>The frame indices passed to the frame hook, and the delays passed to \<^verbatim>\<open>setTimeout\<close>.\<close>

fun renders :: "effect list \<Rightarrow> nat list" where
  "renders [] = []"
| "renders (OnFrame i # es) = i # renders es"
| "renders (e # es) = renders es"

fun scheduled :: "effect list \<Rightarrow> int list" where
  "scheduled [] = []"
| "scheduled (SetTimeout d # es) = d # scheduled es"
| "scheduled (e # es) = scheduled es"

section \<open>Decoder\<close>

text \<open>
  The reader is an object of the library \<^verbatim>\<open>omggif\<close>. The decoder uses its fields
  \<^verbatim>\<open>width\<close> and \<^verbatim>\<open>height\<close>, and its methods \<^verbatim>\<open>numFrames()\<close>, \<^verbatim>\<open>loopCount()\<close>,
  \<^verbatim>\<open>frameInfo(i)\<close>, which returns the metadata of frame \<open>i\<close> or throws, and
  \<^verbatim>\<open>decodeAndBlitFrameRGBA(i, pixels)\<close>, which writes into the typed array it is
  given: \<open>blit r i\<close> is the sequence of its element assignments (offset, value). A
  \<^verbatim>\<open>Uint8ClampedArray\<close> has a fixed length, ignores an assignment past its end and
  clamps each value to 255, which is what \<open>list_update\<close> and \<open>min\<close> do here.
\<close>

record reader =
  reader_width :: nat
  reader_height :: nat
  numFrames :: int
  reader_loopCount :: nat
  frameInfo :: "int \<Rightarrow> frame_info option"
  blit :: "int \<Rightarrow> (nat \<times> nat) list"

definition assign :: "nat \<times> nat \<Rightarrow> nat list \<Rightarrow> nat list" where
  "assign pv buf = buf[fst pv := min (snd pv) 255]"

definition decodeFrame :: "reader \<Rightarrow> int \<Rightarrow> error + frame" where
  "decodeFrame r frameIndex' =
     (case frameInfo r frameIndex' of
        None \<Rightarrow> Inl FrameIndexOutOfRange
      | Some frameInfo' \<Rightarrow>
          Inr (frame_info.extend frameInfo'
                 (frame.fields
                    (fold assign (blit r frameIndex')
                       (replicate (reader_width r * reader_height r * 4) 0))
                    None)))"

text \<open>
  The \<^verbatim>\<open>for\<close> loop of \<^verbatim>\<open>decodeFramesSync\<close> counts up from 0 to \<^verbatim>\<open>ref - 1\<close> when
  \<^verbatim>\<open>ref >= 0\<close> and down from 0 to \<^verbatim>\<open>ref + 1\<close> otherwise.
\<close>

definition frameIndices :: "int \<Rightarrow> int list" where
  "frameIndices ref = (if ref \<ge> 0 then [0..ref - 1] else rev [ref + 1..0])"

text \<open>\<^verbatim>\<open>Array.prototype.map\<close> with a callback that may throw: the first exception ends it.\<close>

fun map_throw :: "('a \<Rightarrow> error + 'b) \<Rightarrow> 'a list \<Rightarrow> error + 'b list" where
  "map_throw f [] = Inr []"
| "map_throw f (a # as) =
     (case f a of
        Inl e \<Rightarrow> Inl e
      | Inr b \<Rightarrow> (case map_throw f as of Inl e \<Rightarrow> Inl e | Inr bs \<Rightarrow> Inr (b # bs)))"

definition decodeFramesSync :: "reader \<Rightarrow> error + frame list" where
  "decodeFramesSync r = map_throw (decodeFrame r) (frameIndices (numFrames r))"

text \<open>
  The constructor of \<^verbatim>\<open>ThinGifler\<close>: it decodes every frame and builds the animator from
  the frames and the reader's size and loop count; a decoding error ends it. The canvas
  is the one given later to \<^verbatim>\<open>frames\<close>.
\<close>

definition thinGifler :: "reader \<Rightarrow> canvas \<Rightarrow> error + world" where
  "thinGifler r cv =
     (case decodeFramesSync r of
        Inl e \<Rightarrow> Inl e
      | Inr fs \<Rightarrow> Inr (new_animator fs (reader_width r) (reader_height r) (reader_loopCount r) cv))"

section \<open>Playback on time\<close>

text \<open>
  A tick that starts in \<open>w\<close> is punctual when the first delay it computes, for the frame
  after the one it shows, is not negative, so that it skips no frame. A run of \<open>n\<close>
  ticks is punctual when each of its ticks returns and is punctual.
\<close>

definition punctual :: "host \<Rightarrow> world \<Rightarrow> bool" where
  "punctual h w \<longleftrightarrow>
     (running (advanceFrame w) \<longrightarrow> 0 \<le> fst (compensate h (advanceFrame w)))"

fun punctual_run :: "host \<Rightarrow> nat \<Rightarrow> world \<Rightarrow> bool" where
  "punctual_run h 0 w = True"
| "punctual_run h (Suc n) w =
     (punctual h w \<and>
      (case run h tick w of Some (Inr w') \<Rightarrow> punctual_run h n w' | _ \<Rightarrow> False))"

text \<open>What a test of the playback observes: running, frame index, loops, frames shown.\<close>

definition playback :: "world \<Rightarrow> bool \<times> nat \<times> nat \<times> nat list" where
  "playback w = (running w, frameIndex w, loops w, renders (trace w))"

section \<open>An example animation\<close>

text \<open>
  Three frames of 1 by 1 pixel on a 1 by 1 canvas, each with delay 10 (hundredths of a
  second), with disposal codes 0, 2 and 3, and a loop count of 1. The clock of
  \<open>example_host\<close> reads 1000 at \<^verbatim>\<open>start\<close>, 1004 at the first tick and 100 more at every
  later reading; drawing a frame replaces the canvas by the frame's pixels. The clock
  of \<open>late_host\<close> stands still at 1350 after \<^verbatim>\<open>start\<close>: the page was suspended for
  350 ms.
\<close>

definition example_frame :: "nat \<Rightarrow> nat \<Rightarrow> frame" where
  "example_frame c d =
     \<lparr>frame_x = 0, frame_y = 0, frame_width = 1, frame_height = 1, delay = 10,
      disposal = d, pixels = [c, c, c, 255], buffer = None\<rparr>"

definition example_frames :: "frame list" where
  "example_frames = [example_frame 10 0, example_frame 20 2, example_frame 30 3]"

definition example_world :: world where
  "example_world = new_animator example_frames 1 1 1 [0, 0, 0, 0]"

definition example_host :: host where
  "example_host =
     \<lparr>clock = (\<lambda>k. if k = 0 then 1000 else 904 + 100 * int k),
      bufferCanvas = (\<lambda>f w h. pixels f),
      onDrawFrame = (\<lambda>cv f i. pixels f)\<rparr>"

definition late_host :: host where
  "late_host =
     \<lparr>clock = (\<lambda>k. if k = 0 then 1000 else 1350),
      bufferCanvas = (\<lambda>f w h. pixels f),
      onDrawFrame = (\<lambda>cv f i. pixels f)\<rparr>"

text \<open>A reader of two frames on a 2 by 1 canvas; its blit writes one byte out of range.\<close>

definition example_reader :: reader where
  "example_reader =
     \<lparr>reader_width = 2, reader_height = 1, numFrames = 2, reader_loopCount = 1,
      frameInfo = (\<lambda>i. if 0 \<le> i \<and> i < 2
                        then Some \<lparr>frame_x = 0, frame_y = 0, frame_width = 1, frame_height = 1,
                                   delay = 10, disposal = 0\<rparr>
                        else None),
      blit = (\<lambda>i. [(nat i, 300), (9, 3)])\<rparr>"

section \<open>Outcomes of runs\<close>

text \<open>
  \<open>returned r\<close>: the run ended without an exception and without hanging.
  \<open>world_after h es w\<close> is the state after such a run (and \<open>w\<close> itself otherwise).
\<close>

definition returned :: "(error + world) option \<Rightarrow> bool" where
  "returned r = (case r of Some (Inr w) \<Rightarrow> True | _ \<Rightarrow> False)"

definition world_after :: "host \<Rightarrow> event list \<Rightarrow> world \<Rightarrow> world" where
  "world_after h es w = (case run h es w of Some (Inr w') \<Rightarrow> w' | _ \<Rightarrow> w)"

section \<open>The measure of the catch-up loop\<close>

text \<open>The loops still allowed, and the frames left in the current pass.\<close>

definition remaining :: "world \<Rightarrow> nat \<times> nat" where
  "remaining w = (loopCount w - loops w, length (frames w) - frameIndex w)"

definition lex_less :: "nat \<times> nat \<Rightarrow> nat \<times> nat \<Rightarrow> bool" where
  "lex_less a b \<longleftrightarrow> fst a < fst b \<or> (fst a = fst b \<and> snd a < snd b)"

text \<open>
  A second animation, with three different delays (10, 3 and 20 hundredths of a second)
  and a loop count of 1, so that a computed delay shows which frame it was computed for.
\<close>

definition varied_frames :: "frame list" where
  "varied_frames =
     [(example_frame 10 0)\<lparr>delay := 10\<rparr>, (example_frame 20 2)\<lparr>delay := 3\<rparr>,
      (example_frame 30 3)\<lparr>delay := 20\<rparr>]"

definition varied_world :: world where
  "varied_world = new_animator varied_frames 1 1 1 [0, 0, 0, 0]"

text \<open>
  An animation that hangs: one frame with delay 0 and no loop limit, under a clock that
  reads 1000 twice and 1350 from then on. \<open>stalling_world\<close> is that animation started.
\<close>

definition jump_host :: host where
  "jump_host =
     \<lparr>clock = (\<lambda>k. if k < 2 then 1000 else 1350),
      bufferCanvas = (\<lambda>f w h. pixels f),
      onDrawFrame = (\<lambda>cv f i. pixels f)\<rparr>"

definition stalling_world :: world where
  "stalling_world =
     start jump_host (new_animator [(example_frame 10 0)\<lparr>delay := 0\<rparr>] 1 1 0 [0, 0, 0, 0])"

text \<open>
  \<open>restarted h w\<close> is the state in which \<^verbatim>\<open>_nextFrameRender\<close> runs when, from \<open>w\<close>,
  \<^verbatim>\<open>stop()\<close> and \<^verbatim>\<open>start()\<close> have been called, the timeout set by that \<^verbatim>\<open>start()\<close> has
  fired and the animation-frame callback it requested fires.
\<close>

definition restarted :: "host \<Rightarrow> world \<Rightarrow> world" where
  "restarted h w = (nextFrame ((start h (stop w))\<lparr>timeouts := timeouts w\<rparr>))\<lparr>rafs := rafs w\<rparr>"

text \<open>
  The hooks are called with \<^verbatim>\<open>this\<close> bound to the animator (\<^verbatim>\<open>ref.apply(this, ...)\<close>), so
  a hook may call a method of the animator, \<^verbatim>\<open>this.stop()\<close> for one.
  \<open>nextFrameRender_with act\<close> is \<^verbatim>\<open>_nextFrameRender\<close> with a drawing hook that draws as
  the host's does and then makes the call \<open>act\<close> on the animator; the drawing hook is the
  last statement of the frame hook, so \<open>act\<close> happens between the frame hook and
  \<^verbatim>\<open>_enqueueNextFrame\<close>.
\<close>

definition nextFrameRender_with :: "(world \<Rightarrow> world) \<Rightarrow> host \<Rightarrow> world \<Rightarrow> (error + world) option" where
  "nextFrameRender_with act h w =
     (if \<not> running w then Some (Inr w)
      else if frameIndex w < length (frames w) then
        enqueueNextFrame h
          (act (onFrame h (frames w ! frameIndex w) (frameIndex w)
             (w\<lparr>trace := trace w @ [OnFrame (frameIndex w)]\<rparr>)))
      else Some (Inl TypeError))"

section \<open>What each operation does to each field\<close>

lemma setTimeout_fields [simp]:
  "frames (setTimeout d w) = frames w" "gif_width (setTimeout d w) = gif_width w"
  "gif_height (setTimeout d w) = gif_height w" "loopCount (setTimeout d w) = loopCount w"
  "loops (setTimeout d w) = loops w" "frameIndex (setTimeout d w) = frameIndex w"
  "running (setTimeout d w) = running w" "lastTime (setTimeout d w) = lastTime w"
  "delayCompensation (setTimeout d w) = delayCompensation w"
  "disposeFrame (setTimeout d w) = disposeFrame w" "canvas (setTimeout d w) = canvas w"
  "clockReads (setTimeout d w) = clockReads w" "rafs (setTimeout d w) = rafs w"
  "timeouts (setTimeout d w) = timeouts w @ [d]" "trace (setTimeout d w) = trace w @ [SetTimeout d]"
  by (simp_all add: setTimeout_def)

lemma nextFrame_fields [simp]:
  "frames (nextFrame w) = frames w" "gif_width (nextFrame w) = gif_width w"
  "gif_height (nextFrame w) = gif_height w" "loopCount (nextFrame w) = loopCount w"
  "loops (nextFrame w) = loops w" "frameIndex (nextFrame w) = frameIndex w"
  "running (nextFrame w) = running w" "lastTime (nextFrame w) = lastTime w"
  "delayCompensation (nextFrame w) = delayCompensation w"
  "disposeFrame (nextFrame w) = disposeFrame w" "canvas (nextFrame w) = canvas w"
  "clockReads (nextFrame w) = clockReads w" "timeouts (nextFrame w) = timeouts w"
  "rafs (nextFrame w) = Suc (rafs w)" "trace (nextFrame w) = trace w @ [RequestAnimationFrame]"
  by (simp_all add: nextFrame_def requestAnimationFrame_def)

lemma start_fields [simp]:
  "frames (start h w) = frames w" "gif_width (start h w) = gif_width w"
  "gif_height (start h w) = gif_height w" "loopCount (start h w) = loopCount w"
  "loops (start h w) = loops w" "frameIndex (start h w) = frameIndex w"
  "running (start h w) = True" "lastTime (start h w) = clock h (clockReads w)"
  "delayCompensation (start h w) = 0"
  "disposeFrame (start h w) = disposeFrame w" "canvas (start h w) = canvas w"
  "clockReads (start h w) = Suc (clockReads w)" "rafs (start h w) = rafs w"
  "timeouts (start h w) = timeouts w @ [0]" "trace (start h w) = trace w @ [SetTimeout 0]"
  by (simp_all add: start_def)

lemma stop_fields [simp]:
  "frames (stop w) = frames w" "gif_width (stop w) = gif_width w"
  "gif_height (stop w) = gif_height w" "loopCount (stop w) = loopCount w"
  "loops (stop w) = loops w" "frameIndex (stop w) = frameIndex w"
  "running (stop w) = False" "lastTime (stop w) = lastTime w"
  "delayCompensation (stop w) = delayCompensation w"
  "disposeFrame (stop w) = disposeFrame w" "canvas (stop w) = canvas w"
  "clockReads (stop w) = clockReads w" "rafs (stop w) = rafs w"
  "timeouts (stop w) = timeouts w" "trace (stop w) = trace w"
  by (simp_all add: stop_def)

lemma reset_fields [simp]:
  "frames (reset w) = frames w" "gif_width (reset w) = gif_width w"
  "gif_height (reset w) = gif_height w" "loopCount (reset w) = loopCount w"
  "loops (reset w) = 0" "frameIndex (reset w) = 0"
  "running (reset w) = running w" "lastTime (reset w) = lastTime w"
  "delayCompensation (reset w) = delayCompensation w"
  "disposeFrame (reset w) = disposeFrame w" "canvas (reset w) = canvas w"
  "clockReads (reset w) = clockReads w" "rafs (reset w) = rafs w"
  "timeouts (reset w) = timeouts w" "trace (reset w) = trace w"
  by (simp_all add: reset_def)

lemma advanceFrame_fields [simp]:
  "frames (advanceFrame w) = frames w" "gif_width (advanceFrame w) = gif_width w"
  "gif_height (advanceFrame w) = gif_height w" "loopCount (advanceFrame w) = loopCount w"
  "lastTime (advanceFrame w) = lastTime w"
  "delayCompensation (advanceFrame w) = delayCompensation w"
  "disposeFrame (advanceFrame w) = disposeFrame w" "canvas (advanceFrame w) = canvas w"
  "clockReads (advanceFrame w) = clockReads w" "rafs (advanceFrame w) = rafs w"
  "timeouts (advanceFrame w) = timeouts w" "trace (advanceFrame w) = trace w"
  by (simp_all add: advanceFrame_def Let_def)

lemma advanceFrame_running:
  "running (advanceFrame w) =
     (running w \<and> \<not> (length (frames w) \<le> frameIndex w + 1 \<and> loopCount w \<noteq> 0 \<and> loopCount w = loops w))"
  by (simp add: advanceFrame_def Let_def)

lemma advanceFrame_frameIndex:
  "frameIndex (advanceFrame w) =
     (if length (frames w) \<le> frameIndex w + 1
      then (if loopCount w \<noteq> 0 \<and> loopCount w = loops w then frameIndex w + 1 else 0)
      else frameIndex w + 1)"
  by (simp add: advanceFrame_def Let_def)

lemma advanceFrame_loops:
  "loops (advanceFrame w) =
     (if length (frames w) \<le> frameIndex w + 1 \<and> \<not> (loopCount w \<noteq> 0 \<and> loopCount w = loops w)
      then loops w + 1 else loops w)"
  by (simp add: advanceFrame_def Let_def)

lemma compensate_fields [simp]:
  "frames (snd (compensate h w)) = frames w" "gif_width (snd (compensate h w)) = gif_width w"
  "gif_height (snd (compensate h w)) = gif_height w" "loopCount (snd (compensate h w)) = loopCount w"
  "loops (snd (compensate h w)) = loops w" "frameIndex (snd (compensate h w)) = frameIndex w"
  "running (snd (compensate h w)) = running w"
  "disposeFrame (snd (compensate h w)) = disposeFrame w" "canvas (snd (compensate h w)) = canvas w"
  "clockReads (snd (compensate h w)) = Suc (clockReads w)" "rafs (snd (compensate h w)) = rafs w"
  "timeouts (snd (compensate h w)) = timeouts w" "trace (snd (compensate h w)) = trace w"
  "lastTime (snd (compensate h w)) = clock h (clockReads w)"
  by (simp_all add: compensate_def Let_def)

lemma compensate_delay:
  "fst (compensate h w) =
     delay (frames w ! frameIndex w) * 10 - (delayCompensation w + (clock h (clockReads w) - lastTime w))"
  by (simp add: compensate_def Let_def)

lemma lazyBuffer_info [simp]:
  "delay (lazyBuffer h w f) = delay f" "disposal (lazyBuffer h w f) = disposal f"
  "pixels (lazyBuffer h w f) = pixels f" "frame_x (lazyBuffer h w f) = frame_x f"
  "frame_y (lazyBuffer h w f) = frame_y f" "frame_width (lazyBuffer h w f) = frame_width f"
  "frame_height (lazyBuffer h w f) = frame_height f"
  by (simp_all add: lazyBuffer_def)

lemma disposePending_fields [simp]:
  "frames (disposePending w) = frames w" "gif_width (disposePending w) = gif_width w"
  "gif_height (disposePending w) = gif_height w" "loopCount (disposePending w) = loopCount w"
  "loops (disposePending w) = loops w" "frameIndex (disposePending w) = frameIndex w"
  "running (disposePending w) = running w" "lastTime (disposePending w) = lastTime w"
  "delayCompensation (disposePending w) = delayCompensation w"
  "disposeFrame (disposePending w) = disposeFrame w"
  "clockReads (disposePending w) = clockReads w" "rafs (disposePending w) = rafs w"
  "timeouts (disposePending w) = timeouts w"
  by (simp_all add: disposePending_def split: option.split)

lemma disposePending_canvas:
  "canvas (disposePending w) =
     (case disposeFrame w of None \<Rightarrow> canvas w | Some d \<Rightarrow> run_dispose d (canvas w))"
  by (simp add: disposePending_def split: option.split)

lemma disposePending_trace:
  "trace (disposePending w) =
     trace w @ (case disposeFrame w of None \<Rightarrow> [] | Some d \<Rightarrow> [DisposeFrame d])"
  by (simp add: disposePending_def split: option.split)

lemma installDisposal_fields [simp]:
  "frames (installDisposal f w) = frames w" "gif_width (installDisposal f w) = gif_width w"
  "gif_height (installDisposal f w) = gif_height w" "loopCount (installDisposal f w) = loopCount w"
  "loops (installDisposal f w) = loops w" "frameIndex (installDisposal f w) = frameIndex w"
  "running (installDisposal f w) = running w" "lastTime (installDisposal f w) = lastTime w"
  "delayCompensation (installDisposal f w) = delayCompensation w"
  "canvas (installDisposal f w) = canvas w"
  "clockReads (installDisposal f w) = clockReads w" "rafs (installDisposal f w) = rafs w"
  "timeouts (installDisposal f w) = timeouts w"
  by (simp_all add: installDisposal_def)

lemma installDisposal_disposeFrame:
  "disposeFrame (installDisposal f w) =
     (if disposal f = 2 then Some ClearRect
      else if disposal f = 3 then Some (PutImageData (canvas w)) else None)"
  by (simp add: installDisposal_def)

lemma installDisposal_trace:
  "trace (installDisposal f w) = trace w @ (if disposal f = 3 then [GetImageData] else [])"
  by (simp add: installDisposal_def)

lemma onFrame_fields [simp]:
  "gif_width (onFrame h f i w) = gif_width w"
  "gif_height (onFrame h f i w) = gif_height w" "loopCount (onFrame h f i w) = loopCount w"
  "loops (onFrame h f i w) = loops w" "frameIndex (onFrame h f i w) = frameIndex w"
  "running (onFrame h f i w) = running w" "lastTime (onFrame h f i w) = lastTime w"
  "delayCompensation (onFrame h f i w) = delayCompensation w"
  "clockReads (onFrame h f i w) = clockReads w" "rafs (onFrame h f i w) = rafs w"
  "timeouts (onFrame h f i w) = timeouts w"
  "frames (onFrame h f i w) = (frames w)[i := lazyBuffer h w f]"
  by (simp_all add: onFrame_def Let_def)

lemma onFrame_disposeFrame:
  "disposeFrame (onFrame h f i w) =
     (if disposal f = 2 then Some ClearRect
      else if disposal f = 3
        then Some (PutImageData (case disposeFrame w of None \<Rightarrow> canvas w | Some d \<Rightarrow> run_dispose d (canvas w)))
      else None)"
  by (simp add: onFrame_def Let_def installDisposal_disposeFrame disposePending_canvas split: option.split)

lemma onFrame_canvas:
  "canvas (onFrame h f i w) =
     onDrawFrame h (case disposeFrame w of None \<Rightarrow> canvas w | Some d \<Rightarrow> run_dispose d (canvas w))
       (lazyBuffer h w f) i"
  by (simp add: onFrame_def Let_def disposePending_canvas split: option.split)

lemma onFrame_trace:
  "trace (onFrame h f i w) =
     trace w @ (case disposeFrame w of None \<Rightarrow> [] | Some d \<Rightarrow> [DisposeFrame d])
       @ (if disposal f = 3 then [GetImageData] else []) @ [OnDrawFrame i]"
  by (simp add: onFrame_def Let_def installDisposal_trace disposePending_trace)

lemma renders_append [simp]: "renders (xs @ ys) = renders xs @ renders ys"
  by (induction xs rule: renders.induct) simp_all

lemma scheduled_append [simp]: "scheduled (xs @ ys) = scheduled xs @ scheduled ys"
  by (induction xs rule: scheduled.induct) simp_all

lemma renders_onFrame: "renders (trace (onFrame h f i w)) = renders (trace w)"
  by (simp add: onFrame_trace split: option.split)

lemma scheduled_onFrame: "scheduled (trace (onFrame h f i w)) = scheduled (trace w)"
  by (simp add: onFrame_trace split: option.split)

section \<open>The catch-up loop: a rule for what it returns\<close>

lemma enqueue_loop_rule:
  assumes ret: "enqueue_loop h w = Some r"
    and init: "I w"
    and skip: "\<And>v. I v \<Longrightarrow> running v \<Longrightarrow> frameIndex v < length (frames v) \<Longrightarrow>
                 fst (compensate h v) < 0 \<Longrightarrow> I (advanceFrame (snd (compensate h v)))"
  shows "\<exists>v. I v \<and>
           (if \<not> running v then r = Inr v
            else if \<not> frameIndex v < length (frames v) then r = Inl TypeError
            else 0 \<le> fst (compensate h v) \<and> r = Inr (setTimeout (fst (compensate h v)) (snd (compensate h v))))"
proof -
  let ?Q = "\<lambda>v r. (if \<not> running v then r = Inr v
            else if \<not> frameIndex v < length (frames v) then r = Inl TypeError
            else 0 \<le> fst (compensate h v) \<and> r = Inr (setTimeout (fst (compensate h v)) (snd (compensate h v))))"
  have "h' = h \<longrightarrow> I w \<longrightarrow> (\<exists>v. I v \<and> ?Q v r)" if "enqueue_loop h' w = Some r" for h'
  proof (rule enqueue_loop.raw_induct[where P = "\<lambda>h' w r. h' = h \<longrightarrow> I w \<longrightarrow> (\<exists>v. I v \<and> ?Q v r)", OF _ that], goal_cases)
    case (1 loop h' w r)
    show ?case
    proof (intro impI)
      assume h': "h' = h" and Iw: "I w"
      show "\<exists>v. I v \<and> ?Q v r"
      proof (cases "running w \<and> frameIndex w < length (frames w) \<and> fst (compensate h w) < 0")
        case True
        with 1(2) h' have "loop h (advanceFrame (snd (compensate h w))) = Some r" by simp
        moreover from True Iw have "I (advanceFrame (snd (compensate h w)))" by (simp add: skip)
        ultimately show ?thesis using 1(1) by blast
      next
        case False
        with 1(2) h' have "?Q w r" by (auto split: if_splits)
        with Iw show ?thesis by blast
      qed
    qed
  qed
  with ret init show ?thesis by blast
qed

lemma enqueue_loop_Inr:
  assumes "enqueue_loop h w = Some (Inr w')"
  shows "frames w' = frames w \<and> loopCount w' = loopCount w \<and> gif_width w' = gif_width w \<and>
         gif_height w' = gif_height w \<and> canvas w' = canvas w \<and> disposeFrame w' = disposeFrame w \<and>
         rafs w' = rafs w \<and>
         ((\<not> running w' \<and> trace w' = trace w \<and> timeouts w' = timeouts w) \<or>
          (running w' \<and> frameIndex w' < length (frames w') \<and>
           (\<exists>d\<ge>0. trace w' = trace w @ [SetTimeout d] \<and> timeouts w' = timeouts w @ [d])))"
proof -
  let ?I = "\<lambda>v. frames v = frames w \<and> loopCount v = loopCount w \<and> gif_width v = gif_width w \<and>
         gif_height v = gif_height w \<and> canvas v = canvas w \<and> disposeFrame v = disposeFrame w \<and>
         rafs v = rafs w \<and> trace v = trace w \<and> timeouts v = timeouts w"
  from enqueue_loop_rule[where I = ?I, OF assms]
  obtain v where v: "?I v"
    and r: "if \<not> running v then Inr w' = (Inr v :: error + world)
            else if \<not> frameIndex v < length (frames v) then Inr w' = (Inl TypeError :: error + world)
            else 0 \<le> fst (compensate h v) \<and> Inr w' = (Inr (setTimeout (fst (compensate h v)) (snd (compensate h v))) :: error + world)"
    by auto
  show ?thesis
  proof (cases "running v")
    case False
    with r have "w' = v" by simp
    with v False show ?thesis by simp
  next
    case True
    with r have "frameIndex v < length (frames v)" by (auto split: if_splits)
    with r True have d: "0 \<le> fst (compensate h v)"
      and w': "w' = setTimeout (fst (compensate h v)) (snd (compensate h v))" by auto
    from v True \<open>frameIndex v < length (frames v)\<close> d show ?thesis
      unfolding w' by simp
  qed
qed

lemma enqueue_loop_stopped: "\<not> running w \<Longrightarrow> enqueue_loop h w = Some (Inr w)"
  by (subst enqueue_loop.simps) simp

lemma enqueue_loop_skip:
  "running w \<Longrightarrow> frameIndex w < length (frames w) \<Longrightarrow> fst (compensate h w) < 0 \<Longrightarrow>
     enqueue_loop h w = enqueue_loop h (advanceFrame (snd (compensate h w)))"
  by (subst enqueue_loop.simps) simp

lemma enqueue_loop_schedule:
  "running w \<Longrightarrow> frameIndex w < length (frames w) \<Longrightarrow> 0 \<le> fst (compensate h w) \<Longrightarrow>
     enqueue_loop h w = Some (Inr (setTimeout (fst (compensate h w)) (snd (compensate h w))))"
  by (subst enqueue_loop.simps) simp

lemma nextFrameRender_stopped: "\<not> running w \<Longrightarrow> nextFrameRender h w = Some (Inr w)"
  by (simp add: nextFrameRender_def)

lemma nextFrameRender_running:
  "running w \<Longrightarrow> frameIndex w < length (frames w) \<Longrightarrow>
     nextFrameRender h w =
       enqueue_loop h (advanceFrame (onFrame h (frames w ! frameIndex w) (frameIndex w)
         (w\<lparr>trace := trace w @ [OnFrame (frameIndex w)]\<rparr>)))"
  by (simp add: nextFrameRender_def enqueueNextFrame_def)

lemma nextFrameRender_Inr:
  assumes "nextFrameRender h w = Some (Inr w')" and "running w"
  shows "frameIndex w < length (frames w) \<and>
         renders (trace w') = renders (trace w) @ [frameIndex w] \<and>
         loopCount w' = loopCount w \<and> length (frames w') = length (frames w) \<and>
         rafs w' = rafs w \<and>
         ((\<not> running w' \<and> scheduled (trace w') = scheduled (trace w) \<and> timeouts w' = timeouts w) \<or>
          (running w' \<and> frameIndex w' < length (frames w') \<and>
           (\<exists>d\<ge>0. scheduled (trace w') = scheduled (trace w) @ [d] \<and> timeouts w' = timeouts w @ [d])))"
proof -
  from assms have in_range: "frameIndex w < length (frames w)"
    by (auto simp: nextFrameRender_def split: if_splits)
  let ?x = "advanceFrame (onFrame h (frames w ! frameIndex w) (frameIndex w)
         (w\<lparr>trace := trace w @ [OnFrame (frameIndex w)]\<rparr>))"
  from assms in_range have "enqueue_loop h ?x = Some (Inr w')"
    by (simp add: nextFrameRender_running)
  from enqueue_loop_Inr[OF this] in_range show ?thesis
    by (auto simp: renders_onFrame scheduled_onFrame)
qed

section \<open>Runs\<close>

lemma returned_iff: "returned r \<longleftrightarrow> (\<exists>w. r = Some (Inr w))"
  by (auto simp: returned_def split: option.splits sum.splits)

lemma run_world_after: "returned (run h es w) \<Longrightarrow> run h es w = Some (Inr (world_after h es w))"
  by (auto simp: returned_iff world_after_def)

lemma run_append:
  "run h (es @ es') w =
     (case run h es w of None \<Rightarrow> None | Some (Inl e) \<Rightarrow> Some (Inl e) | Some (Inr w') \<Rightarrow> run h es' w')"
  by (induction es arbitrary: w) (auto split: option.splits sum.splits)

lemma fire_stopped:
  assumes "\<not> running w" and "e \<noteq> Start"
  shows "\<exists>w'. fire h e w = Some (Inr w') \<and> \<not> running w' \<and>
           renders (trace w') = renders (trace w) \<and> scheduled (trace w') = scheduled (trace w) \<and>
           canvas w' = canvas w \<and> disposeFrame w' = disposeFrame w \<and> frames w' = frames w \<and>
           length (timeouts w') \<le> length (timeouts w)"
  using assms by (cases e) (auto simp: fire_def nextFrameRender_stopped)

lemma run_stopped:
  assumes "\<not> running w" and "Start \<notin> set es"
  shows "\<exists>w'. run h es w = Some (Inr w') \<and> \<not> running w' \<and>
           renders (trace w') = renders (trace w) \<and> scheduled (trace w') = scheduled (trace w) \<and>
           canvas w' = canvas w \<and> disposeFrame w' = disposeFrame w \<and> frames w' = frames w \<and>
           length (timeouts w') \<le> length (timeouts w)"
  using assms
proof (induction es arbitrary: w)
  case Nil
  then show ?case by simp
next
  case (Cons e es)
  from Cons.prems have "e \<noteq> Start" and rest: "Start \<notin> set es" by auto
  from fire_stopped[OF Cons.prems(1) this(1), of h]
  obtain v where v: "fire h e w = Some (Inr v)" "\<not> running v"
    "renders (trace v) = renders (trace w)" "scheduled (trace v) = scheduled (trace w)"
    "canvas v = canvas w" "disposeFrame v = disposeFrame w" "frames v = frames w"
    "length (timeouts v) \<le> length (timeouts w)" by blast
  from Cons.IH[OF v(2) rest] v show ?case by auto
qed

lemma advanceFrame_forever: "loopCount w = 0 \<Longrightarrow> running (advanceFrame w) = running w"
  by (simp add: advanceFrame_running)

lemma enqueue_loop_forever:
  assumes "enqueue_loop h w = Some (Inr w')" and "running w" and "loopCount w = 0"
  shows "running w' \<and> loopCount w' = 0"
proof -
  from enqueue_loop_rule[where I = "\<lambda>v. running v \<and> loopCount v = 0", OF assms(1)] assms(2,3)
  obtain v where "running v" "loopCount v = 0"
    "frameIndex v < length (frames v) \<and>
       Inr w' = (Inr (setTimeout (fst (compensate h v)) (snd (compensate h v))) :: error + world)"
    by (auto simp: advanceFrame_forever split: if_splits)
  then show ?thesis by auto
qed

lemma nextFrameRender_forever:
  assumes "nextFrameRender h w = Some (Inr w')" and "running w" and "loopCount w = 0"
  shows "running w' \<and> loopCount w' = 0"
proof -
  from assms have in_range: "frameIndex w < length (frames w)"
    by (auto simp: nextFrameRender_def split: if_splits)
  with assms have "enqueue_loop h (advanceFrame (onFrame h (frames w ! frameIndex w) (frameIndex w)
         (w\<lparr>trace := trace w @ [OnFrame (frameIndex w)]\<rparr>))) = Some (Inr w')"
    by (simp add: nextFrameRender_running)
  from enqueue_loop_forever[OF this] assms(2,3) show ?thesis
    by (simp add: advanceFrame_forever)
qed

lemma fire_forever:
  assumes "fire h e w = Some (Inr w')" and "running w" and "loopCount w = 0" and "e \<noteq> Stop"
  shows "running w' \<and> loopCount w' = 0"
proof (cases e)
  case FrameFires
  show ?thesis
  proof (cases "0 < rafs w")
    case True
    with assms(1) FrameFires have "nextFrameRender h (w\<lparr>rafs := rafs w - 1\<rparr>) = Some (Inr w')"
      by (simp add: fire_def)
    from nextFrameRender_forever[OF this] assms(2,3) show ?thesis by simp
  next
    case False
    with assms FrameFires show ?thesis by (simp add: fire_def)
  qed
qed (use assms in \<open>auto simp: fire_def split: if_splits\<close>)

lemma run_forever:
  assumes "run h es w = Some (Inr w')" and "running w" and "loopCount w = 0" and "Stop \<notin> set es"
  shows "running w' \<and> loopCount w' = 0"
  using assms
proof (induction es arbitrary: w)
  case Nil
  then show ?case by simp
next
  case (Cons e es)
  from Cons.prems(1) obtain v where v: "fire h e w = Some (Inr v)" and r: "run h es v = Some (Inr w')"
    by (auto split: option.splits sum.splits)
  from Cons.prems have "e \<noteq> Stop" "Stop \<notin> set es" by auto
  from fire_forever[OF v Cons.prems(2,3) this(1)] Cons.IH[OF r _ _ this(2)] show ?case by blast
qed

section \<open>Invariants of the catch-up loop\<close>

lemma enqueue_loop_invariant:
  assumes ret: "enqueue_loop h w = Some (Inr w')"
    and init: "I w"
    and skip: "\<And>v. I v \<Longrightarrow> running v \<Longrightarrow> frameIndex v < length (frames v) \<Longrightarrow>
                 fst (compensate h v) < 0 \<Longrightarrow> I (advanceFrame (snd (compensate h v)))"
    and exit: "\<And>v. I v \<Longrightarrow> running v \<Longrightarrow> frameIndex v < length (frames v) \<Longrightarrow>
                 0 \<le> fst (compensate h v) \<Longrightarrow> I (setTimeout (fst (compensate h v)) (snd (compensate h v)))"
  shows "I w'"
proof -
  from enqueue_loop_rule[where I = I, OF ret init skip]
  obtain v where v: "I v"
    and r: "if \<not> running v then Inr w' = (Inr v :: error + world)
            else if \<not> frameIndex v < length (frames v) then Inr w' = (Inl TypeError :: error + world)
            else 0 \<le> fst (compensate h v) \<and>
                 Inr w' = (Inr (setTimeout (fst (compensate h v)) (snd (compensate h v))) :: error + world)"
    by blast
  show ?thesis
  proof (cases "running v")
    case False
    with r v show ?thesis by simp
  next
    case True
    with r have in_range: "frameIndex v < length (frames v)" by (auto split: if_splits)
    with r True have "0 \<le> fst (compensate h v)"
      "w' = setTimeout (fst (compensate h v)) (snd (compensate h v))" by auto
    with exit[OF v True in_range] show ?thesis by simp
  qed
qed

section \<open>Delays passed to the timer\<close>

lemma fire_scheduled:
  assumes "fire h e w = Some (Inr w')"
  shows "\<exists>ds. scheduled (trace w') = scheduled (trace w) @ ds \<and> (\<forall>d\<in>set ds. 0 \<le> d)"
proof (cases e)
  case FrameFires
  show ?thesis
  proof (cases "0 < rafs w \<and> running w")
    case True
    with assms FrameFires have "nextFrameRender h (w\<lparr>rafs := rafs w - 1\<rparr>) = Some (Inr w')"
      by (simp add: fire_def)
    from nextFrameRender_Inr[OF this] True
    have "scheduled (trace w') = scheduled (trace w) @ [] \<or>
          (\<exists>d\<ge>0. scheduled (trace w') = scheduled (trace w) @ [d])" by auto
    then show ?thesis by fastforce
  next
    case False
    with assms FrameFires have "w' = w \<or> w' = w\<lparr>rafs := rafs w - 1\<rparr>"
      by (auto simp: fire_def nextFrameRender_stopped split: if_splits)
    then show ?thesis by auto
  qed
qed (use assms in \<open>auto simp: fire_def split: if_splits\<close>)

lemma run_scheduled:
  assumes "run h es w = Some (Inr w')"
  shows "\<exists>ds. scheduled (trace w') = scheduled (trace w) @ ds \<and> (\<forall>d\<in>set ds. 0 \<le> d)"
  using assms
proof (induction es arbitrary: w)
  case Nil
  then show ?case by simp
next
  case (Cons e es)
  from Cons.prems obtain v where v: "fire h e w = Some (Inr v)" and r: "run h es v = Some (Inr w')"
    by (auto split: option.splits sum.splits)
  from fire_scheduled[OF v] obtain ds where
    ds: "scheduled (trace v) = scheduled (trace w) @ ds" "\<forall>d\<in>set ds. 0 \<le> d" by blast
  from Cons.IH[OF r] obtain ds' where
    ds': "scheduled (trace w') = scheduled (trace v) @ ds'" "\<forall>d\<in>set ds'. 0 \<le> d" by blast
  from ds ds' have "scheduled (trace w') = scheduled (trace w) @ (ds @ ds')"
    "\<forall>d\<in>set (ds @ ds'). 0 \<le> d" by auto
  then show ?case by blast
qed

section \<open>The loop counter stays below the loop count\<close>

lemma advanceFrame_loops_le:
  "loopCount w \<noteq> 0 \<Longrightarrow> loops w \<le> loopCount w \<Longrightarrow> loops (advanceFrame w) \<le> loopCount w"
  by (auto simp: advanceFrame_loops)

lemma enqueue_loop_loops_le:
  assumes "enqueue_loop h w = Some (Inr w')" and "loopCount w \<noteq> 0" and "loops w \<le> loopCount w"
  shows "loops w' \<le> loopCount w' \<and> loopCount w' = loopCount w"
proof (rule enqueue_loop_invariant[where I = "\<lambda>v. loops v \<le> loopCount v \<and> loopCount v = loopCount w",
      OF assms(1)])
  show "loops w \<le> loopCount w \<and> loopCount w = loopCount w" using assms(3) by simp
next
  fix v :: world assume "loops v \<le> loopCount v \<and> loopCount v = loopCount w"
  with assms(2) advanceFrame_loops_le[of "snd (compensate h v)"]
  show "loops (advanceFrame (snd (compensate h v))) \<le> loopCount (advanceFrame (snd (compensate h v))) \<and>
        loopCount (advanceFrame (snd (compensate h v))) = loopCount w" by simp
next
  fix v :: world assume "loops v \<le> loopCount v \<and> loopCount v = loopCount w"
  then show "loops (setTimeout (fst (compensate h v)) (snd (compensate h v)))
               \<le> loopCount (setTimeout (fst (compensate h v)) (snd (compensate h v))) \<and>
             loopCount (setTimeout (fst (compensate h v)) (snd (compensate h v))) = loopCount w"
    by simp
qed

lemma fire_loops_le:
  assumes "fire h e w = Some (Inr w')" and "loopCount w \<noteq> 0" and "loops w \<le> loopCount w"
  shows "loops w' \<le> loopCount w' \<and> loopCount w' = loopCount w"
proof (cases e)
  case FrameFires
  show ?thesis
  proof (cases "0 < rafs w \<and> running w")
    case True
    with assms FrameFires have r: "nextFrameRender h (w\<lparr>rafs := rafs w - 1\<rparr>) = Some (Inr w')"
      by (simp add: fire_def)
    with True have "frameIndex w < length (frames w)"
      by (auto simp: nextFrameRender_def split: if_splits)
    with r True have "enqueue_loop h (advanceFrame (onFrame h (frames w ! frameIndex w) (frameIndex w)
         (w\<lparr>rafs := rafs w - 1, trace := trace w @ [OnFrame (frameIndex w)]\<rparr>))) = Some (Inr w')"
      by (simp add: nextFrameRender_running)
    from enqueue_loop_loops_le[OF this] assms(2,3)
      advanceFrame_loops_le[of "onFrame h (frames w ! frameIndex w) (frameIndex w)
         (w\<lparr>rafs := rafs w - 1, trace := trace w @ [OnFrame (frameIndex w)]\<rparr>)"]
    show ?thesis by simp
  next
    case False
    with assms FrameFires have "w' = w \<or> w' = w\<lparr>rafs := rafs w - 1\<rparr>"
      by (auto simp: fire_def nextFrameRender_stopped split: if_splits)
    with assms show ?thesis by auto
  qed
qed (use assms in \<open>auto simp: fire_def split: if_splits\<close>)

lemma run_loops_le:
  assumes "run h es w = Some (Inr w')" and "loopCount w \<noteq> 0" and "loops w \<le> loopCount w"
  shows "loops w' \<le> loopCount w' \<and> loopCount w' = loopCount w"
  using assms
proof (induction es arbitrary: w)
  case Nil
  then show ?case by simp
next
  case (Cons e es)
  from Cons.prems(1) obtain v where v: "fire h e w = Some (Inr v)" and r: "run h es v = Some (Inr w')"
    by (auto split: option.splits sum.splits)
  from fire_loops_le[OF v Cons.prems(2,3)] have "loops v \<le> loopCount v" "loopCount v = loopCount w"
    by auto
  with Cons.IH[OF r] Cons.prems(2) show ?case by simp
qed

lemma fire_length_frames:
  assumes "fire h e w = Some (Inr w')"
  shows "length (frames w') = length (frames w)"
proof (cases e)
  case FrameFires
  show ?thesis
  proof (cases "0 < rafs w \<and> running w")
    case True
    with assms FrameFires have "nextFrameRender h (w\<lparr>rafs := rafs w - 1\<rparr>) = Some (Inr w')"
      by (simp add: fire_def)
    from nextFrameRender_Inr[OF this] True show ?thesis by simp
  next
    case False
    with assms FrameFires have "w' = w \<or> w' = w\<lparr>rafs := rafs w - 1\<rparr>"
      by (auto simp: fire_def nextFrameRender_stopped split: if_splits)
    then show ?thesis by auto
  qed
qed (use assms in \<open>auto simp: fire_def split: if_splits\<close>)

lemma run_length_frames:
  assumes "run h es w = Some (Inr w')"
  shows "length (frames w') = length (frames w)"
  using assms
proof (induction es arbitrary: w)
  case Nil
  then show ?case by simp
next
  case (Cons e es)
  from Cons.prems obtain v where v: "fire h e w = Some (Inr v)" and r: "run h es v = Some (Inr w')"
    by (auto split: option.splits sum.splits)
  from fire_length_frames[OF v] Cons.IH[OF r] show ?case by simp
qed

section \<open>Where the frame index stays in range\<close>

lemma advanceFrame_index_range:
  assumes "frameIndex w < length (frames w)"
  shows "frameIndex (advanceFrame w) < length (frames w) \<or>
         (loopCount w \<noteq> 0 \<and> loopCount w = loops w \<and> \<not> running (advanceFrame w) \<and>
          frameIndex (advanceFrame w) = length (frames w))"
  using assms by (auto simp: advanceFrame_frameIndex advanceFrame_running)

section \<open>Termination of the catch-up loop under a loop limit\<close>

lemma advanceFrame_remaining:
  assumes "frameIndex w < length (frames w)" and "loops w \<le> loopCount w"
    and "loopCount w \<noteq> 0" and "running (advanceFrame w)"
  shows "lex_less (remaining (advanceFrame w)) (remaining w)"
  using assms
  by (auto simp: lex_less_def remaining_def advanceFrame_loops advanceFrame_frameIndex
      advanceFrame_running)

lemma lex_less_measure:
  assumes "lex_less (a, b) (c, d)" and "b \<le> n" and "0 < d"
  shows "a * n + b < c * n + d"
proof (cases "a < c")
  case True
  then have "Suc a \<le> c" by simp
  then have "Suc a * n \<le> c * n" by (rule mult_le_mono1)
  with assms(2,3) show ?thesis by simp
next
  case False
  with assms(1) have "a = c" "b < d" by (auto simp: lex_less_def)
  then show ?thesis by simp
qed

lemma enqueue_loop_terminates:
  assumes "loopCount w \<noteq> 0" and "loops w \<le> loopCount w"
    and "running w \<longrightarrow> frameIndex w < length (frames w)"
  shows "\<exists>w'. enqueue_loop h w = Some (Inr w')"
  using assms
proof (induction "fst (remaining w) * length (frames w) + snd (remaining w)" arbitrary: w
    rule: less_induct)
  case less
  show ?case
  proof (cases "running w")
    case False
    then show ?thesis by (simp add: enqueue_loop_stopped)
  next
    case True
    with less.prems have in_range: "frameIndex w < length (frames w)" by simp
    show ?thesis
    proof (cases "fst (compensate h w) < 0")
      case False
      with True in_range show ?thesis by (simp add: enqueue_loop_schedule)
    next
      case skip: True
      let ?v = "advanceFrame (snd (compensate h w))"
      have eq: "enqueue_loop h w = enqueue_loop h ?v"
        using True in_range skip by (rule enqueue_loop_skip)
      show ?thesis
      proof (cases "running ?v")
        case False
        then show ?thesis by (simp add: eq enqueue_loop_stopped)
      next
        case rv: True
        have "lex_less (remaining ?v) (remaining (snd (compensate h w)))"
          using in_range less.prems(1,2) rv by (intro advanceFrame_remaining) simp_all
        then have "lex_less (fst (remaining ?v), snd (remaining ?v)) (fst (remaining w), snd (remaining w))"
          by (simp add: remaining_def)
        moreover have "snd (remaining ?v) \<le> length (frames w)" by (simp add: remaining_def)
        moreover have "0 < snd (remaining w)" using in_range by (simp add: remaining_def)
        ultimately have "fst (remaining ?v) * length (frames w) + snd (remaining ?v)
                         < fst (remaining w) * length (frames w) + snd (remaining w)"
          by (rule lex_less_measure)
        then have m: "fst (remaining ?v) * length (frames ?v) + snd (remaining ?v)
                         < fst (remaining w) * length (frames w) + snd (remaining w)" by simp
        have 1: "loopCount ?v \<noteq> 0" using less.prems(1) by simp
        have 2: "loops ?v \<le> loopCount ?v"
          using advanceFrame_loops_le[of "snd (compensate h w)"] less.prems(1,2) by simp
        have 3: "running ?v \<longrightarrow> frameIndex ?v < length (frames ?v)"
          using in_range by (auto simp: advanceFrame_frameIndex advanceFrame_running)
        from less.hyps[OF m 1 2 3] show ?thesis by (simp add: eq)
      qed
    qed
  qed
qed

lemma advanceFrame_exhausted:
  "running w \<Longrightarrow> running (advanceFrame w) \<or> loops (advanceFrame w) = loopCount (advanceFrame w)"
  by (auto simp: advanceFrame_def Let_def stop_def)

lemma enqueue_loop_exhausted:
  assumes "enqueue_loop h w = Some (Inr w')" and "running w \<or> loops w = loopCount w"
  shows "running w' \<or> loops w' = loopCount w'"
proof (rule enqueue_loop_invariant[where I = "\<lambda>v. running v \<or> loops v = loopCount v", OF assms])
  fix v :: world assume "running v"
  then show "running (advanceFrame (snd (compensate h v))) \<or>
             loops (advanceFrame (snd (compensate h v))) = loopCount (advanceFrame (snd (compensate h v)))"
    using advanceFrame_exhausted[of "snd (compensate h v)"] by simp
next
  fix v :: world assume "running v"
  then show "running (setTimeout (fst (compensate h v)) (snd (compensate h v))) \<or>
             loops (setTimeout (fst (compensate h v)) (snd (compensate h v)))
               = loopCount (setTimeout (fst (compensate h v)) (snd (compensate h v)))" by simp
qed


lemma advanceFrame_in_range:
  "frames w \<noteq> [] \<Longrightarrow> running (advanceFrame w) \<Longrightarrow>
     frameIndex (advanceFrame w) < length (frames w)"
  by (auto simp: advanceFrame_frameIndex advanceFrame_running)

section \<open>The decoder\<close>

lemma length_fold_assign: "length (fold assign ws buf) = length buf"
  by (induction ws arbitrary: buf) (simp_all add: assign_def)

lemma map_throw_all_Inr:
  "(\<And>a. a \<in> set as \<Longrightarrow> f a = Inr (g a)) \<Longrightarrow> map_throw f as = Inr (map g as)"
  by (induction as) simp_all

lemma decodeFrame_Inr:
  "frameInfo r i = Some fi \<Longrightarrow>
     decodeFrame r i =
       Inr (frame_info.extend fi
              (frame.fields (fold assign (blit r i) (replicate (reader_width r * reader_height r * 4) 0)) None))"
  by (simp add: decodeFrame_def)

lemma extend_fields:
  "frame_info.truncate (frame_info.extend fi (frame.fields px b)) = fi"
  "pixels (frame_info.extend fi (frame.fields px b)) = px"
  "buffer (frame_info.extend fi (frame.fields px b)) = b"
  by (simp_all add: frame_info.defs frame.defs)

section \<open>The frame hook and the canvas\<close>

lemma lazyBuffer_onFrame [simp]: "lazyBuffer h (onFrame h' f i w) g = lazyBuffer h w g"
  by (simp add: lazyBuffer_def)

lemma fire_no_render:
  assumes "fire h e w = Some (Inr w')" and "renders (trace w') = renders (trace w)"
  shows "canvas w' = canvas w \<and> disposeFrame w' = disposeFrame w"
proof (cases e)
  case FrameFires
  show ?thesis
  proof (cases "0 < rafs w \<and> running w")
    case True
    with assms FrameFires have "nextFrameRender h (w\<lparr>rafs := rafs w - 1\<rparr>) = Some (Inr w')"
      by (simp add: fire_def)
    from nextFrameRender_Inr[OF this] True assms(2) show ?thesis by simp
  next
    case False
    with assms FrameFires have "w' = w \<or> w' = w\<lparr>rafs := rafs w - 1\<rparr>"
      by (auto simp: fire_def nextFrameRender_stopped split: if_splits)
    then show ?thesis by auto
  qed
qed (use assms in \<open>auto simp: fire_def split: if_splits\<close>)

lemma nextFrameRender_canvas:
  assumes "nextFrameRender h w = Some (Inr w')" and "running w"
  shows "canvas w' = canvas (onFrame h (frames w ! frameIndex w) (frameIndex w) w) \<and>
         disposeFrame w' = disposeFrame (onFrame h (frames w ! frameIndex w) (frameIndex w) w)"
proof -
  from assms have in_range: "frameIndex w < length (frames w)"
    by (auto simp: nextFrameRender_def split: if_splits)
  with assms have "enqueue_loop h (advanceFrame (onFrame h (frames w ! frameIndex w) (frameIndex w)
         (w\<lparr>trace := trace w @ [OnFrame (frameIndex w)]\<rparr>))) = Some (Inr w')"
    by (simp add: nextFrameRender_running)
  from enqueue_loop_Inr[OF this] show ?thesis
    by (simp add: onFrame_canvas onFrame_disposeFrame lazyBuffer_def split: option.split)
qed

section \<open>Punctual ticks\<close>

lemma ticks_snoc: "ticks (Suc n) = ticks n @ tick"
  by (induction n) simp_all

lemma advanceFrame_cong:
  assumes "running v = running w" "frameIndex v = frameIndex w" "loops v = loops w"
    "loopCount v = loopCount w" "length (frames v) = length (frames w)"
  shows "running (advanceFrame v) = running (advanceFrame w)"
    "frameIndex (advanceFrame v) = frameIndex (advanceFrame w)"
    "loops (advanceFrame v) = loops (advanceFrame w)"
  using assms by (simp_all add: advanceFrame_running advanceFrame_frameIndex advanceFrame_loops)

lemma tick_punctual:
  assumes run: "running w" and in_range: "frameIndex w < length (frames w)"
    and pending: "timeouts w = [d]" "rafs w = 0" and punct: "punctual h w"
  shows "\<exists>w'. run h tick w = Some (Inr w') \<and>
           renders (trace w') = renders (trace w) @ [frameIndex w] \<and>
           frameIndex w' = frameIndex (advanceFrame w) \<and> loops w' = loops (advanceFrame w) \<and>
           running w' = running (advanceFrame w) \<and> loopCount w' = loopCount w \<and>
           length (frames w') = length (frames w) \<and> rafs w' = 0 \<and>
           timeouts w' = (if running (advanceFrame w) then [fst (compensate h (advanceFrame w))] else [])"
proof -
  define y where "y = (nextFrame (w\<lparr>timeouts := []\<rparr>))\<lparr>rafs := 0\<rparr>"
  define x where "x = onFrame h (frames y ! frameIndex y) (frameIndex y)
                        (y\<lparr>trace := trace y @ [OnFrame (frameIndex y)]\<rparr>)"
  define a where "a = advanceFrame x"
  have y: "running y" "frameIndex y = frameIndex w" "frames y = frames w" "loops y = loops w"
    "loopCount y = loopCount w" "timeouts y = []" "rafs y = 0"
    "trace y = trace w @ [RequestAnimationFrame]" "clockReads y = clockReads w"
    "lastTime y = lastTime w" "delayCompensation y = delayCompensation w"
    using run by (simp_all add: y_def)
  have x: "running x" "frameIndex x = frameIndex w" "length (frames x) = length (frames w)"
    "loops x = loops w" "loopCount x = loopCount w" "timeouts x = []" "rafs x = 0"
    "renders (trace x) = renders (trace w) @ [frameIndex w]" "clockReads x = clockReads w"
    "lastTime x = lastTime w" "delayCompensation x = delayCompensation w"
    using y by (simp_all add: x_def renders_onFrame)
  have dx: "delay (frames x ! j) = delay (frames w ! j)" for j
    using in_range y by (simp add: x_def nth_list_update)
  have cong: "running x = running w" "frameIndex x = frameIndex w" "loops x = loops w"
    "loopCount x = loopCount w" "length (frames x) = length (frames w)"
    using x run by simp_all
  note a = advanceFrame_cong[OF cong, folded a_def]
  have a': "loopCount a = loopCount w" "length (frames a) = length (frames w)" "timeouts a = []"
    "rafs a = 0" "renders (trace a) = renders (trace w) @ [frameIndex w]"
    using x by (simp_all add: a_def)
  have ca: "fst (compensate h a) = fst (compensate h (advanceFrame w))"
    using x dx a by (simp add: compensate_delay a_def)
  have tick: "run h tick w = nextFrameRender h y"
    using pending by (simp add: tick_def fire_def y_def split: option.splits sum.splits)
  have render: "nextFrameRender h y = enqueue_loop h a"
    using y in_range by (simp add: nextFrameRender_running a_def x_def)
  show ?thesis
  proof (cases "running (advanceFrame w)")
    case False
    with a have "enqueue_loop h a = Some (Inr a)" by (simp add: enqueue_loop_stopped)
    with tick render a a' False show ?thesis by simp
  next
    case True
    from in_range have "frames w \<noteq> []" by auto
    with True have "frameIndex (advanceFrame w) < length (frames w)" by (simp add: advanceFrame_in_range)
    with a a' have ia: "frameIndex a < length (frames a)" by simp
    from punct True ca have "0 \<le> fst (compensate h a)" by (simp add: punctual_def)
    with True a ia have "enqueue_loop h a = Some (Inr (setTimeout (fst (compensate h a)) (snd (compensate h a))))"
      by (simp add: enqueue_loop_schedule)
    with tick render a a' True ca show ?thesis by simp
  qed
qed

lemma punctual_run_snoc:
  "punctual_run h (Suc n) w \<Longrightarrow>
     punctual_run h n w \<and> (\<exists>w'. run h (ticks n) w = Some (Inr w') \<and> punctual h w')"
proof (induction n arbitrary: w)
  case 0
  then show ?case by simp
next
  case (Suc n)
  from Suc.prems obtain w1 where p: "punctual h w" and t: "run h tick w = Some (Inr w1)"
    and r: "punctual_run h (Suc n) w1"
    by (auto split: option.splits sum.splits)
  from Suc.IH[OF r] obtain w' where "punctual_run h n w1" "run h (ticks n) w1 = Some (Inr w')"
    "punctual h w'" by blast
  with p t show ?case by (simp add: run_append)
qed

lemma punctual_run_le: "punctual_run h n w \<Longrightarrow> m \<le> n \<Longrightarrow> punctual_run h m w"
proof (induction n)
  case 0
  then show ?case by simp
next
  case (Suc n)
  show ?case
  proof (cases "m = Suc n")
    case True
    with Suc.prems show ?thesis by simp
  next
    case False
    with Suc.prems have "m \<le> n" by simp
    moreover from Suc.prems(1) have "punctual_run h n w" by (blast dest: punctual_run_snoc)
    ultimately show ?thesis by (rule Suc.IH[rotated])
  qed
qed

section \<open>Frame indices of whole passes\<close>

lemma map_mod_pass:
  assumes "i \<le> n"
  shows "map (\<lambda>j. j mod n) [a * n..<a * n + i] = [0..<i]"
proof -
  have "map (\<lambda>j. j + a * n) [0..<i] = [a * n..<i + a * n]" by (rule map_add_upt)
  also have "i + a * n = a * n + i" by (rule add.commute)
  finally have "map (\<lambda>j. j mod n) [a * n..<a * n + i]
      = map (\<lambda>j. j mod n) (map (\<lambda>j. j + a * n) [0..<i])" by simp
  also have "\<dots> = map (\<lambda>j. (j + a * n) mod n) [0..<i]" by (simp add: comp_def)
  also have "\<dots> = map (\<lambda>j. j) [0..<i]"
  proof (rule map_cong)
    fix j assume "j \<in> set [0..<i]"
    with assms have "j < n" by simp
    then show "(j + a * n) mod n = j" by simp
  qed simp
  finally show ?thesis by simp
qed

lemma map_mod_passes:
  "i \<le> n \<Longrightarrow> map (\<lambda>j. j mod n) [0..<p * n + i] = concat (replicate p [0..<n]) @ [0..<i]"
proof (induction p arbitrary: i)
  case 0
  then show ?case using map_mod_pass[of i n 0] by simp
next
  case (Suc p)
  have s: "Suc p * n = p * n + n" by simp
  have "[0..<Suc p * n + i] = [0..<Suc p * n] @ [Suc p * n..<Suc p * n + i]"
    by (rule upt_add_eq_append) simp
  then have "map (\<lambda>j. j mod n) [0..<Suc p * n + i]
      = map (\<lambda>j. j mod n) [0..<Suc p * n] @ map (\<lambda>j. j mod n) [Suc p * n..<Suc p * n + i]"
    by (simp only: map_append)
  also have "map (\<lambda>j. j mod n) [Suc p * n..<Suc p * n + i] = [0..<i]"
    using Suc.prems by (rule map_mod_pass)
  also have "map (\<lambda>j. j mod n) [0..<Suc p * n] = concat (replicate p [0..<n]) @ [0..<n]"
    unfolding s by (rule Suc.IH) simp
  also have "concat (replicate p [0..<n]) @ [0..<n] = concat (replicate (Suc p) [0..<n])"
  proof -
    have "replicate (Suc p) [0..<n] = replicate p [0..<n] @ [[0..<n]]"
      by (simp only: replicate_append_same replicate_Suc)
    then show ?thesis by (simp only: concat_append concat.simps append_Nil2)
  qed
  finally show ?case .
qed

section \<open>A punctual run under a loop limit\<close>

lemma punctual_passes_running:
  assumes fs: "fs \<noteq> []" and k: "k \<noteq> 0"
    and m: "m < Suc k * length fs"
    and p: "punctual_run h m (start h (new_animator fs gw gh k cv))"
  shows "\<exists>w. run h (ticks m) (start h (new_animator fs gw gh k cv)) = Some (Inr w) \<and>
           running w \<and> frameIndex w = m mod length fs \<and> loops w = m div length fs \<and>
           loopCount w = k \<and> length (frames w) = length fs \<and> rafs w = 0 \<and>
           (\<exists>d. timeouts w = [d]) \<and>
           renders (trace w) = map (\<lambda>j. j mod length fs) [0..<m]"
  using m p
proof (induction m)
  case 0
  show ?case by (simp add: new_animator_def)
next
  case (Suc m)
  let ?n = "length fs"
  let ?w0 = "start h (new_animator fs gw gh k cv)"
  from fs have n: "0 < ?n" by simp
  from Suc.prems(1) have m: "m < Suc k * ?n" by simp
  from punctual_run_snoc[OF Suc.prems(2)] obtain v
    where pm: "punctual_run h m ?w0" and rv: "run h (ticks m) ?w0 = Some (Inr v)" and pv: "punctual h v"
    by blast
  from Suc.IH[OF m pm] rv obtain d where v: "running v" "frameIndex v = m mod ?n" "loops v = m div ?n"
    "loopCount v = k" "length (frames v) = ?n" "rafs v = 0" "timeouts v = [d]"
    "renders (trace v) = map (\<lambda>j. j mod ?n) [0..<m]" by auto
  from v n have in_range: "frameIndex v < length (frames v)" by simp
  from tick_punctual[OF v(1) in_range v(7) v(6) pv] obtain w
    where w: "run h tick v = Some (Inr w)"
      "renders (trace w) = renders (trace v) @ [frameIndex v]"
      "frameIndex w = frameIndex (advanceFrame v)" "loops w = loops (advanceFrame v)"
      "running w = running (advanceFrame v)" "loopCount w = loopCount v"
      "length (frames w) = length (frames v)" "rafs w = 0"
      "timeouts w = (if running (advanceFrame v) then [fst (compensate h (advanceFrame v))] else [])"
    by blast
  have r: "run h (ticks (Suc m)) ?w0 = Some (Inr w)"
    using rv w(1) by (simp only: ticks_snoc run_append option.case sum.case)
  have rend: "renders (trace w) = map (\<lambda>j. j mod ?n) [0..<Suc m]"
    using w(2) v by simp
  from m n have pk: "m div ?n \<le> k"
    by (simp add: less_mult_imp_div_less less_Suc_eq_le[symmetric])
  have not_last: "\<not> (Suc (m mod ?n) = ?n \<and> m div ?n = k)"
  proof
    assume "Suc (m mod ?n) = ?n \<and> m div ?n = k"
    then have "Suc m = k * ?n + ?n" using div_mult_mod_eq[of m ?n] by simp
    with Suc.prems(1) show False by simp
  qed
  show ?case
  proof (cases "Suc (m mod ?n) = ?n")
    case True
    with not_last pk have lt: "m div ?n \<noteq> k" by simp
    from True have sm: "Suc m mod ?n = 0" "Suc m div ?n = Suc (m div ?n)"
      by (simp_all add: mod_Suc div_Suc)
    from True v lt k have adv: "running (advanceFrame v)" "frameIndex (advanceFrame v) = 0"
      "loops (advanceFrame v) = Suc (m div ?n)"
      by (simp_all add: advanceFrame_running advanceFrame_frameIndex advanceFrame_loops)
    with r rend w v sm show ?thesis by simp
  next
    case False
    have "m mod ?n < ?n" using n by (rule mod_less_divisor)
    with False have lt: "Suc (m mod ?n) < ?n" by linarith
    from False have sm: "Suc m mod ?n = Suc (m mod ?n)" "Suc m div ?n = m div ?n"
      by (simp_all add: mod_Suc div_Suc)
    from lt v have adv: "running (advanceFrame v)" "frameIndex (advanceFrame v) = Suc (m mod ?n)"
      "loops (advanceFrame v) = m div ?n"
      by (simp_all add: advanceFrame_running advanceFrame_frameIndex advanceFrame_loops)
    with r rend w v sm show ?thesis by simp
  qed
qed

lemma punctual_passes_stopped:
  assumes fs: "fs \<noteq> []" and k: "k \<noteq> 0"
    and p: "punctual_run h (Suc k * length fs) (start h (new_animator fs gw gh k cv))"
  shows "\<exists>w. run h (ticks (Suc k * length fs)) (start h (new_animator fs gw gh k cv)) = Some (Inr w) \<and>
           \<not> running w \<and> frameIndex w = length fs \<and> loops w = k \<and>
           timeouts w = [] \<and> rafs w = 0 \<and>
           renders (trace w) = map (\<lambda>j. j mod length fs) [0..<Suc k * length fs]"
proof -
  let ?n = "length fs"
  let ?w0 = "start h (new_animator fs gw gh k cv)"
  from fs have n: "0 < ?n" by simp
  define m where "m = k * ?n + (?n - 1)"
  from n have sm: "Suc m = Suc k * ?n" by (simp add: m_def)
  then have m: "m < Suc k * ?n" by simp
  from n have dm: "m div ?n = k" "m mod ?n = ?n - 1" by (simp_all add: m_def)
  from p sm have ps: "punctual_run h (Suc m) ?w0" by simp
  from punctual_run_snoc[OF ps] obtain v
    where pm: "punctual_run h m ?w0" and rv: "run h (ticks m) ?w0 = Some (Inr v)" and pv: "punctual h v"
    by blast
  from punctual_passes_running[OF fs k m pm] rv obtain d where v: "running v" "frameIndex v = m mod ?n"
    "loops v = m div ?n" "loopCount v = k" "length (frames v) = ?n" "rafs v = 0" "timeouts v = [d]"
    "renders (trace v) = map (\<lambda>j. j mod ?n) [0..<m]" by auto
  from v n have in_range: "frameIndex v < length (frames v)" by simp
  from tick_punctual[OF v(1) in_range v(7) v(6) pv] obtain w
    where w: "run h tick v = Some (Inr w)"
      "renders (trace w) = renders (trace v) @ [frameIndex v]"
      "frameIndex w = frameIndex (advanceFrame v)" "loops w = loops (advanceFrame v)"
      "running w = running (advanceFrame v)" "loopCount w = loopCount v"
      "length (frames w) = length (frames v)" "rafs w = 0"
      "timeouts w = (if running (advanceFrame v) then [fst (compensate h (advanceFrame v))] else [])"
    by blast
  have r: "run h (ticks (Suc m)) ?w0 = Some (Inr w)"
    using rv w(1) by (simp only: ticks_snoc run_append option.case sum.case)
  have rend: "renders (trace w) = map (\<lambda>j. j mod ?n) [0..<Suc m]"
    using w(2) v by simp
  from v dm n k have adv: "\<not> running (advanceFrame v)" "frameIndex (advanceFrame v) = ?n"
    "loops (advanceFrame v) = k"
    by (simp_all add: advanceFrame_running advanceFrame_frameIndex advanceFrame_loops)
  from r rend w adv show ?thesis unfolding sm by simp
qed


lemma run_Start: "run h (Start # es) w = run h es (start h w)"
  by (simp add: fire_def)

lemma compensate_debt:
  "delayCompensation (snd (compensate h w)) = - fst (compensate h w)"
  by (simp add: compensate_def Let_def)

lemma compensate_after_skip:
  "fst (compensate h (advanceFrame (snd (compensate h w)))) =
     delay (frames w ! frameIndex (advanceFrame w)) * 10
       - (- fst (compensate h w) + (clock h (Suc (clockReads w)) - clock h (clockReads w)))"
proof -
  have "frameIndex (advanceFrame (snd (compensate h w))) = frameIndex (advanceFrame w)"
    by (rule advanceFrame_cong) simp_all
  then show ?thesis
    by (simp add: compensate_delay[of h "advanceFrame (snd (compensate h w))"] compensate_debt)
qed

lemma enqueue_loop_last_state:
  assumes "enqueue_loop h w = Some (Inr w')" and "running w'"
  shows "\<exists>v. running v \<and> frameIndex v < length (frames v) \<and> 0 \<le> fst (compensate h v) \<and>
             w' = setTimeout (fst (compensate h v)) (snd (compensate h v)) \<and>
             frames v = frames w \<and> trace v = trace w \<and> timeouts v = timeouts w"
proof -
  let ?I = "\<lambda>v. frames v = frames w \<and> trace v = trace w \<and> timeouts v = timeouts w"
  from enqueue_loop_rule[where I = ?I, OF assms(1)]
  obtain v where v: "?I v"
    and r: "if \<not> running v then Inr w' = (Inr v :: error + world)
            else if \<not> frameIndex v < length (frames v) then Inr w' = (Inl TypeError :: error + world)
            else 0 \<le> fst (compensate h v) \<and>
                 Inr w' = (Inr (setTimeout (fst (compensate h v)) (snd (compensate h v))) :: error + world)"
    by auto
  have rv: "running v"
  proof (rule ccontr)
    assume "\<not> running v"
    with r have "w' = v" by simp
    with assms(2) \<open>\<not> running v\<close> show False by simp
  qed
  with r have in_range: "frameIndex v < length (frames v)" by (auto split: if_splits)
  with r rv have "0 \<le> fst (compensate h v)"
    "w' = setTimeout (fst (compensate h v)) (snd (compensate h v))" by auto
  with v rv in_range show ?thesis by blast
qed

section \<open>When a tick returns, and when the catch-up loop hangs\<close>

lemma punctual_cong:
  assumes "running v = running w" "frameIndex v = frameIndex w" "loops v = loops w"
    "loopCount v = loopCount w" "length (frames v) = length (frames w)"
    "\<And>j. delay (frames v ! j) = delay (frames w ! j)"
    "clockReads v = clockReads w" "lastTime v = lastTime w"
    "delayCompensation v = delayCompensation w"
  shows "punctual h v = punctual h w"
proof -
  note a = advanceFrame_cong[OF assms(1-5)]
  have "fst (compensate h (advanceFrame v)) = fst (compensate h (advanceFrame w))"
    using a assms(6-9) by (simp add: compensate_delay)
  with a show ?thesis by (simp add: punctual_def)
qed

lemma nextFrameRender_returns:
  assumes run: "running y" and in_range: "frameIndex y < length (frames y)"
    and ok: "punctual h y \<or> (loopCount y \<noteq> 0 \<and> loops y \<le> loopCount y)"
  shows "\<exists>w'. nextFrameRender h y = Some (Inr w')"
proof -
  define x where "x = onFrame h (frames y ! frameIndex y) (frameIndex y)
                        (y\<lparr>trace := trace y @ [OnFrame (frameIndex y)]\<rparr>)"
  define a where "a = advanceFrame x"
  have render: "nextFrameRender h y = enqueue_loop h a"
    using run in_range by (simp add: nextFrameRender_running a_def x_def)
  have x: "running x = running y" "frameIndex x = frameIndex y" "loops x = loops y"
    "loopCount x = loopCount y" "length (frames x) = length (frames y)"
    "clockReads x = clockReads y" "lastTime x = lastTime y"
    "delayCompensation x = delayCompensation y"
    by (simp_all add: x_def)
  have dx: "delay (frames x ! j) = delay (frames y ! j)" for j
    using in_range by (simp add: x_def nth_list_update)
  from in_range x have ne: "frames x \<noteq> []" by auto
  have ia: "running a \<longrightarrow> frameIndex a < length (frames a)"
    unfolding a_def using advanceFrame_in_range[OF ne] by simp
  from ok show ?thesis
  proof
    assume "punctual h y"
    then have p: "punctual h x" using punctual_cong[OF x(1-5) dx x(6-8), of h] by simp
    show ?thesis
    proof (cases "running a")
      case False
      then show ?thesis by (simp add: render enqueue_loop_stopped)
    next
      case True
      with p have "0 \<le> fst (compensate h a)" by (simp add: punctual_def a_def)
      with True ia show ?thesis by (simp add: render enqueue_loop_schedule)
    qed
  next
    assume l: "loopCount y \<noteq> 0 \<and> loops y \<le> loopCount y"
    with x have "loopCount a \<noteq> 0" "loops a \<le> loopCount a"
      unfolding a_def using advanceFrame_loops_le[of x] by simp_all
    from enqueue_loop_terminates[OF this ia] show ?thesis by (simp add: render)
  qed
qed

lemma enqueue_loop_hangs:
  assumes init: "I w"
    and step: "\<And>v. I v \<Longrightarrow> running v \<and> frameIndex v < length (frames v) \<and>
                 fst (compensate h v) < 0 \<and> I (advanceFrame (snd (compensate h v)))"
  shows "enqueue_loop h w = None"
proof (rule ccontr)
  assume "enqueue_loop h w \<noteq> None"
  then obtain r where r: "enqueue_loop h w = Some r" by auto
  have "\<exists>v. I v \<and>
           (if \<not> running v then r = Inr v
            else if \<not> frameIndex v < length (frames v) then r = Inl TypeError
            else 0 \<le> fst (compensate h v) \<and> r = Inr (setTimeout (fst (compensate h v)) (snd (compensate h v))))"
    using r init by (rule enqueue_loop_rule) (simp add: step)
  then obtain v where "I v" and
    e: "if \<not> running v then r = Inr v
            else if \<not> frameIndex v < length (frames v) then r = Inl TypeError
            else 0 \<le> fst (compensate h v) \<and> r = Inr (setTimeout (fst (compensate h v)) (snd (compensate h v)))"
    by blast
  from step[OF \<open>I v\<close>] have "running v" "frameIndex v < length (frames v)" "fst (compensate h v) < 0"
    by simp_all
  with e show False by simp
qed

lemma zero_delay_loop_hangs:
  assumes "running w" "length (frames w) = 1" "delay (frames w ! 0) = 0" "loopCount w = 0"
    "frameIndex w = 0" "2 \<le> clockReads w" "0 < delayCompensation w + (1350 - lastTime w)"
  shows "enqueue_loop jump_host w = None"
proof (rule enqueue_loop_hangs[where I = "\<lambda>v. running v \<and> length (frames v) = 1 \<and>
      delay (frames v ! 0) = 0 \<and> loopCount v = 0 \<and> frameIndex v = 0 \<and> 2 \<le> clockReads v \<and>
      0 < delayCompensation v + (1350 - lastTime v)"])
  show "running w \<and> length (frames w) = 1 \<and> delay (frames w ! 0) = 0 \<and> loopCount w = 0 \<and>
        frameIndex w = 0 \<and> 2 \<le> clockReads w \<and> 0 < delayCompensation w + (1350 - lastTime w)"
    using assms by simp
next
  fix v :: world
  assume v: "running v \<and> length (frames v) = 1 \<and> delay (frames v ! 0) = 0 \<and> loopCount v = 0 \<and>
        frameIndex v = 0 \<and> 2 \<le> clockReads v \<and> 0 < delayCompensation v + (1350 - lastTime v)"
  then have c: "clock jump_host (clockReads v) = 1350" by (simp add: jump_host_def)
  from v c have d: "fst (compensate jump_host v) < 0" by (simp add: compensate_delay)
  let ?u = "advanceFrame (snd (compensate jump_host v))"
  from v have u: "running ?u" "frameIndex ?u = 0"
    by (simp_all add: advanceFrame_running advanceFrame_frameIndex)
  from v c have "0 < delayCompensation ?u + (1350 - lastTime ?u)"
    by (simp add: compensate_debt compensate_delay)
  with v u d
  show "running v \<and> frameIndex v < length (frames v) \<and> fst (compensate jump_host v) < 0 \<and>
        (running ?u \<and> length (frames ?u) = 1 \<and> delay (frames ?u ! 0) = 0 \<and> loopCount ?u = 0 \<and>
         frameIndex ?u = 0 \<and> 2 \<le> clockReads ?u \<and> 0 < delayCompensation ?u + (1350 - lastTime ?u))"
    by simp
qed


lemma run_restart:
  "run h [Stop, Start, TimeoutFires (length (timeouts w)), FrameFires] w
     = nextFrameRender h (restarted h w)"
  by (simp add: fire_def restarted_def split: option.splits sum.splits)

lemma restarted_fields:
  "running (restarted h w)" "frameIndex (restarted h w) = frameIndex w"
  "loops (restarted h w) = loops w" "loopCount (restarted h w) = loopCount w"
  "frames (restarted h w) = frames w" "delayCompensation (restarted h w) = 0"
  "lastTime (restarted h w) = clock h (clockReads w)"
  "clockReads (restarted h w) = Suc (clockReads w)"
  "trace (restarted h w) = trace w @ [SetTimeout 0, RequestAnimationFrame]"
  "timeouts (restarted h w) = timeouts w" "rafs (restarted h w) = rafs w"
  "canvas (restarted h w) = canvas w" "disposeFrame (restarted h w) = disposeFrame w"
  by (simp_all add: restarted_def)

section \<open>Callbacks that fire after a stop, and a stop during a tick\<close>

lemma nextFrameRender_with_id: "nextFrameRender_with id h w = nextFrameRender h w"
  by (simp add: nextFrameRender_with_def nextFrameRender_def)

lemma fire_stopped_trace:
  assumes "\<not> running w" and "e \<noteq> Start"
  shows "\<exists>w' n. fire h e w = Some (Inr w') \<and> \<not> running w' \<and>
           trace w' = trace w @ replicate n RequestAnimationFrame \<and>
           n + length (timeouts w') \<le> length (timeouts w) \<and>
           rafs w' + length (timeouts w') \<le> rafs w + length (timeouts w)"
proof (cases "\<exists>i. e = TimeoutFires i \<and> i < length (timeouts w)")
  case True
  then obtain i where i: "e = TimeoutFires i" "i < length (timeouts w)" by blast
  let ?v = "nextFrame (w\<lparr>timeouts := take i (timeouts w) @ drop (Suc i) (timeouts w)\<rparr>)"
  from i have "fire h e w = Some (Inr ?v)" by (simp add: fire_def)
  moreover from assms have "\<not> running ?v" by simp
  moreover have "trace ?v = trace w @ replicate 1 RequestAnimationFrame" by simp
  moreover from i have "1 + length (timeouts ?v) \<le> length (timeouts w)" by simp
  moreover from i have "rafs ?v + length (timeouts ?v) \<le> rafs w + length (timeouts w)" by simp
  ultimately show ?thesis by blast
next
  case False
  with assms have "\<exists>w'. fire h e w = Some (Inr w') \<and> \<not> running w' \<and> trace w' = trace w \<and>
      length (timeouts w') \<le> length (timeouts w) \<and> rafs w' \<le> rafs w \<and>
      timeouts w' = timeouts w"
    by (cases e) (auto simp: fire_def nextFrameRender_stopped)
  then obtain w' where "fire h e w = Some (Inr w')" "\<not> running w'"
    "trace w' = trace w @ replicate 0 RequestAnimationFrame"
    "0 + length (timeouts w') \<le> length (timeouts w)"
    "rafs w' + length (timeouts w') \<le> rafs w + length (timeouts w)" by auto
  then show ?thesis by blast
qed

lemma run_stopped_trace:
  assumes "\<not> running w" and "Start \<notin> set es"
  shows "\<exists>w' n. run h es w = Some (Inr w') \<and> \<not> running w' \<and>
           trace w' = trace w @ replicate n RequestAnimationFrame \<and>
           n + length (timeouts w') \<le> length (timeouts w) \<and>
           rafs w' + length (timeouts w') \<le> rafs w + length (timeouts w)"
  using assms
proof (induction es arbitrary: w)
  case Nil
  have "run h [] w = Some (Inr w)" "trace w = trace w @ replicate 0 RequestAnimationFrame"
    "0 + length (timeouts w) \<le> length (timeouts w)" by simp_all
  with Nil.prems(1) show ?case by blast
next
  case (Cons e es)
  from Cons.prems have "e \<noteq> Start" and rest: "Start \<notin> set es" by auto
  from fire_stopped_trace[OF Cons.prems(1) this(1), of h]
  obtain v n where v: "fire h e w = Some (Inr v)" "\<not> running v"
    "trace v = trace w @ replicate n RequestAnimationFrame"
    "n + length (timeouts v) \<le> length (timeouts w)"
    "rafs v + length (timeouts v) \<le> rafs w + length (timeouts w)" by blast
  from Cons.IH[OF v(2) rest]
  obtain w' m where w': "run h es v = Some (Inr w')" "\<not> running w'"
    "trace w' = trace v @ replicate m RequestAnimationFrame"
    "m + length (timeouts w') \<le> length (timeouts v)"
    "rafs w' + length (timeouts w') \<le> rafs v + length (timeouts v)" by blast
  from v(1) w'(1) have "run h (e # es) w = Some (Inr w')" by simp
  moreover from v(3) w'(3)
  have "trace w' = trace w @ replicate (n + m) RequestAnimationFrame"
    by (simp add: replicate_add)
  moreover from v(4) w'(4) have "(n + m) + length (timeouts w') \<le> length (timeouts w)" by linarith
  moreover from v(5) w'(5) have "rafs w' + length (timeouts w') \<le> rafs w + length (timeouts w)"
    by linarith
  ultimately show ?case using w'(2) by blast
qed

lemma renders_replicate_raf [simp]: "renders (replicate n RequestAnimationFrame) = []"
  by (induction n) simp_all

lemma scheduled_replicate_raf [simp]: "scheduled (replicate n RequestAnimationFrame) = []"
  by (induction n) simp_all

lemma nextFrameRender_with_stop:
  assumes "running w" and "frameIndex w < length (frames w)"
  shows "nextFrameRender_with stop h w =
     Some (Inr (advanceFrame (stop (onFrame h (frames w ! frameIndex w) (frameIndex w)
       (w\<lparr>trace := trace w @ [OnFrame (frameIndex w)]\<rparr>)))))"
proof -
  let ?x = "stop (onFrame h (frames w ! frameIndex w) (frameIndex w)
       (w\<lparr>trace := trace w @ [OnFrame (frameIndex w)]\<rparr>))"
  have "\<not> running (advanceFrame ?x)" by (simp add: advanceFrame_running)
  then have "enqueue_loop h (advanceFrame ?x) = Some (Inr (advanceFrame ?x))"
    by (rule enqueue_loop_stopped)
  with assms show ?thesis by (simp add: nextFrameRender_with_def enqueueNextFrame_def)
qed

section \<open>The claims\<close>

text \<open>
  C1 (as the code has it). The example animation has three frames with delays 10 and a
  loop count of 1, and under \<open>example_host\<close> every computed delay is non-negative (each
  is 96 ms). After \<^verbatim>\<open>start()\<close> and three ticks the three frames have been shown once
  and the animator is still running, with the loop counter at 1; it stops by itself
  only at the sixth tick, after six frames have been shown, with the loop counter still
  1. So a loop count of 1 gives two passes, not one.
\<close>

theorem one_loop_of_three_frames_shows_six:
  "punctual_run example_host 6 (start example_host example_world) \<and>
   map_option (map_sum id playback) (run example_host (Start # ticks 3) example_world)
     = Some (Inr (True, 0, 1, [0, 1, 2])) \<and>
   map_option (map_sum id timeouts) (run example_host (Start # ticks 3) example_world)
     = Some (Inr [96]) \<and>
   map_option (map_sum id playback) (run example_host (Start # ticks 5) example_world)
     = Some (Inr (True, 2, 1, [0, 1, 2, 0, 1])) \<and>
   map_option (map_sum id playback) (run example_host (Start # ticks 6) example_world)
     = Some (Inr (False, 3, 1, [0, 1, 2, 0, 1, 2]))"
  by code_simp

text \<open>
  C1, amended. For at least one frame and a loop count \<open>k > 0\<close>, when the animator is
  started from its initial state and every tick computes a non-negative delay first
  (so that no frame is skipped), the frames are shown in order in \<open>k + 1\<close> full
  passes: for every \<open>p \<le> k\<close> and every \<open>i\<close> below the number of frames, after
  \<open>p * frameCount + i\<close> ticks the animator is running, has completed \<open>p\<close> loops, is at
  frame \<open>i\<close> and has shown \<open>p\<close> passes and the first \<open>i\<close> frames of the next; and the
  tick number \<open>(k + 1) * frameCount\<close> stops it, with the loop counter equal to \<open>k\<close>,
  exactly \<open>k + 1\<close> passes shown and no callback pending.
\<close>

theorem loop_limit_plays_one_more_pass:
  assumes "fs \<noteq> []" and "0 < k"
    and "punctual_run h (Suc k * length fs) (start h (new_animator fs gw gh k cv))"
  shows "(\<forall>p i. p \<le> k \<and> i < length fs \<longrightarrow>
            (\<exists>w. run h (Start # ticks (p * length fs + i)) (new_animator fs gw gh k cv) = Some (Inr w) \<and>
                 running w \<and> loops w = p \<and> frameIndex w = i \<and>
                 renders (trace w) = concat (replicate p [0..<length fs]) @ [0..<i])) \<and>
         (\<exists>w. run h (Start # ticks (Suc k * length fs)) (new_animator fs gw gh k cv) = Some (Inr w) \<and>
              \<not> running w \<and> loops w = k \<and> timeouts w = [] \<and> rafs w = 0 \<and>
              renders (trace w) = concat (replicate (Suc k) [0..<length fs]))"
proof (intro conjI allI impI)
  let ?n = "length fs"
  let ?w0 = "start h (new_animator fs gw gh k cv)"
  from assms(2) have k: "k \<noteq> 0" by simp
  fix p i assume pi: "p \<le> k \<and> i < ?n"
  have s: "Suc k * ?n = k * ?n + ?n" by simp
  from pi have "p * ?n \<le> k * ?n" by (simp add: mult_le_mono1)
  with pi have m: "p * ?n + i < Suc k * ?n" unfolding s by linarith
  then have le: "p * ?n + i \<le> Suc k * ?n" by (rule less_imp_le)
  have "punctual_run h (p * ?n + i) ?w0"
    using assms(3) le by (rule punctual_run_le)
  from punctual_passes_running[OF assms(1) k m this] obtain w
    where w: "run h (ticks (p * ?n + i)) ?w0 = Some (Inr w)" "running w"
      "frameIndex w = (p * ?n + i) mod ?n" "loops w = (p * ?n + i) div ?n"
      "renders (trace w) = map (\<lambda>j. j mod ?n) [0..<p * ?n + i]" by blast
  from pi have n0: "?n \<noteq> 0" by auto
  have "(i + p * ?n) div ?n = p + i div ?n" using n0 by (rule div_mult_self1)
  with pi have "(p * ?n + i) div ?n = p" by (simp add: add.commute)
  moreover from pi have "(p * ?n + i) mod ?n = i" by simp
  moreover from pi have "map (\<lambda>j. j mod ?n) [0..<p * ?n + i] = concat (replicate p [0..<?n]) @ [0..<i]"
    by (intro map_mod_passes) simp
  ultimately have "run h (Start # ticks (p * ?n + i)) (new_animator fs gw gh k cv) = Some (Inr w) \<and>
                 running w \<and> loops w = p \<and> frameIndex w = i \<and>
                 renders (trace w) = concat (replicate p [0..<?n]) @ [0..<i]"
    using w by (simp only: run_Start simp_thms)
  then show "\<exists>w. run h (Start # ticks (p * ?n + i)) (new_animator fs gw gh k cv) = Some (Inr w) \<and>
                 running w \<and> loops w = p \<and> frameIndex w = i \<and>
                 renders (trace w) = concat (replicate p [0..<?n]) @ [0..<i]" by (rule exI)
next
  let ?n = "length fs"
  let ?w0 = "start h (new_animator fs gw gh k cv)"
  from assms(2) have k: "k \<noteq> 0" by simp
  from punctual_passes_stopped[OF assms(1) k assms(3)] obtain w
    where w: "run h (ticks (Suc k * ?n)) ?w0 = Some (Inr w)" "\<not> running w" "loops w = k"
      "timeouts w = []" "rafs w = 0"
      "renders (trace w) = map (\<lambda>j. j mod ?n) [0..<Suc k * ?n]" by blast
  have "map (\<lambda>j. j mod ?n) [0..<Suc k * ?n + 0] = concat (replicate (Suc k) [0..<?n]) @ [0..<0]"
    by (rule map_mod_passes) simp
  then have "map (\<lambda>j. j mod ?n) [0..<Suc k * ?n] = concat (replicate (Suc k) [0..<?n])"
    by (simp only: add_0_right upt_0 append_Nil2)
  with w have "run h (Start # ticks (Suc k * ?n)) (new_animator fs gw gh k cv) = Some (Inr w) \<and>
              \<not> running w \<and> loops w = k \<and> timeouts w = [] \<and> rafs w = 0 \<and>
              renders (trace w) = concat (replicate (Suc k) [0..<?n])"
    by (simp only: run_Start simp_thms)
  then show "\<exists>w. run h (Start # ticks (Suc k * ?n)) (new_animator fs gw gh k cv) = Some (Inr w) \<and>
              \<not> running w \<and> loops w = k \<and> timeouts w = [] \<and> rafs w = 0 \<and>
              renders (trace w) = concat (replicate (Suc k) [0..<?n])" by (rule exI)
qed

theorem loop_limit_plays_one_more_pass_witness:
  "example_frames \<noteq> [] \<and> (0 :: nat) < 1 \<and>
   punctual_run example_host (Suc 1 * length example_frames)
     (start example_host (new_animator example_frames 1 1 1 [0, 0, 0, 0])) \<and>
   (\<exists>w. run example_host (Start # ticks (Suc 1 * length example_frames))
           (new_animator example_frames 1 1 1 [0, 0, 0, 0]) = Some (Inr w) \<and>
        \<not> running w \<and> loops w = 1 \<and> renders (trace w) = [0, 1, 2, 0, 1, 2])"
proof -
  have 1: "example_frames \<noteq> []" by (simp add: example_frames_def)
  have 2: "(0 :: nat) < 1" by simp
  have 3: "punctual_run example_host (Suc 1 * length example_frames)
     (start example_host (new_animator example_frames 1 1 1 [0, 0, 0, 0]))" by code_simp
  have 4: "concat (replicate (Suc 1) [0..<length example_frames]) = [0, 1, 2, 0, 1, 2]"
    by code_simp
  from loop_limit_plays_one_more_pass[OF 1 2 3]
  have "\<exists>w. run example_host (Start # ticks (Suc 1 * length example_frames))
           (new_animator example_frames 1 1 1 [0, 0, 0, 0]) = Some (Inr w) \<and>
        \<not> running w \<and> loops w = 1 \<and> timeouts w = [] \<and> rafs w = 0 \<and>
        renders (trace w) = concat (replicate (Suc 1) [0..<length example_frames])"
    by (rule conjunct2)
  then have "\<exists>w. run example_host (Start # ticks (Suc 1 * length example_frames))
           (new_animator example_frames 1 1 1 [0, 0, 0, 0]) = Some (Inr w) \<and>
        \<not> running w \<and> loops w = 1 \<and> renders (trace w) = [0, 1, 2, 0, 1, 2]"
    unfolding 4 by (elim exE conjE) (intro exI conjI, assumption+)
  with 1 2 3 show ?thesis by (intro conjI)
qed

text \<open>
  C2. Each pass through the catch-up loop of \<^verbatim>\<open>_enqueueNextFrame\<close> reads the clock once
  and computes \<^verbatim>\<open>actualDelay\<close> as the nominal delay of the frame at the current
  position, in milliseconds (\<^verbatim>\<open>frame.delay * 10\<close>), minus the debt (the old
  \<^verbatim>\<open>_delayCompensation\<close> plus the time since \<^verbatim>\<open>_lastTime\<close>); it leaves
  \<^verbatim>\<open>_delayCompensation\<close> at minus that delay and \<^verbatim>\<open>_lastTime\<close> at the time read. When
  the delay is negative the loop goes on from the state in which the frame position has
  been advanced once more, with the log of effects, the canvas and the pending callbacks
  as they were (the skipped frame is not shown), and the delay it computes next is that
  of the new frame minus the debt carried over. When the delay is not negative the loop
  ends at once by passing exactly that delay to \<^verbatim>\<open>setTimeout\<close>; when the animation has
  stopped it ends without scheduling. So when \<^verbatim>\<open>_enqueueNextFrame\<close> returns, either the
  animation has stopped and nothing was logged, or exactly one \<^verbatim>\<open>setTimeout\<close> call was
  made, with the first non-negative delay computed. Over every sequence of events that
  returns, every delay passed to \<^verbatim>\<open>setTimeout\<close> is non-negative.
\<close>

theorem catch_up_schedules_no_negative_delay:
  "fst (compensate h w) =
     delay (frames w ! frameIndex w) * 10
       - (delayCompensation w + (clock h (clockReads w) - lastTime w)) \<and>
   delayCompensation (snd (compensate h w)) = - fst (compensate h w) \<and>
   lastTime (snd (compensate h w)) = clock h (clockReads w) \<and>
   clockReads (snd (compensate h w)) = Suc (clockReads w) \<and>
   frameIndex (snd (compensate h w)) = frameIndex w \<and>
   frames (snd (compensate h w)) = frames w \<and>
   (running w \<and> frameIndex w < length (frames w) \<and> fst (compensate h w) < 0 \<longrightarrow>
      enqueue_loop h w = enqueue_loop h (advanceFrame (snd (compensate h w))) \<and>
      trace (advanceFrame (snd (compensate h w))) = trace w \<and>
      canvas (advanceFrame (snd (compensate h w))) = canvas w \<and>
      timeouts (advanceFrame (snd (compensate h w))) = timeouts w \<and>
      rafs (advanceFrame (snd (compensate h w))) = rafs w \<and>
      frameIndex (advanceFrame (snd (compensate h w))) = frameIndex (advanceFrame w) \<and>
      fst (compensate h (advanceFrame (snd (compensate h w)))) =
        delay (frames w ! frameIndex (advanceFrame w)) * 10
          - (- fst (compensate h w) + (clock h (Suc (clockReads w)) - clock h (clockReads w)))) \<and>
   (running w \<and> frameIndex w < length (frames w) \<and> 0 \<le> fst (compensate h w) \<longrightarrow>
      enqueue_loop h w = Some (Inr (setTimeout (fst (compensate h w)) (snd (compensate h w))))) \<and>
   (\<not> running w \<longrightarrow> enqueue_loop h w = Some (Inr w)) \<and>
   (enqueueNextFrame h w = Some (Inr w1) \<longrightarrow>
      canvas w1 = canvas w \<and>
      ((\<not> running w1 \<and> trace w1 = trace w \<and> timeouts w1 = timeouts w) \<or>
       (running w1 \<and> (\<exists>d\<ge>0. trace w1 = trace w @ [SetTimeout d] \<and> timeouts w1 = timeouts w @ [d]))) \<and>
      (running w1 \<longrightarrow>
         (\<exists>v. running v \<and> frameIndex v < length (frames v) \<and> frames v = frames w \<and>
              trace v = trace w \<and> timeouts v = timeouts w \<and>
              0 \<le> fst (compensate h v) \<and>
              w1 = setTimeout (fst (compensate h v)) (snd (compensate h v))))) \<and>
   (run h es w = Some (Inr w2) \<longrightarrow>
      (\<exists>ds. scheduled (trace w2) = scheduled (trace w) @ ds \<and> (\<forall>d\<in>set ds. 0 \<le> d)))"
proof (intro conjI impI)
  show "fst (compensate h w) =
     delay (frames w ! frameIndex w) * 10
       - (delayCompensation w + (clock h (clockReads w) - lastTime w))"
    by (rule compensate_delay)
  show "delayCompensation (snd (compensate h w)) = - fst (compensate h w)"
    by (rule compensate_debt)
  show "fst (compensate h (advanceFrame (snd (compensate h w)))) =
        delay (frames w ! frameIndex (advanceFrame w)) * 10
          - (- fst (compensate h w) + (clock h (Suc (clockReads w)) - clock h (clockReads w)))"
    by (rule compensate_after_skip)
  show "frameIndex (advanceFrame (snd (compensate h w))) = frameIndex (advanceFrame w)"
    by (rule advanceFrame_cong) simp_all
next
  assume "running w \<and> frameIndex w < length (frames w) \<and> fst (compensate h w) < 0"
  then show "enqueue_loop h w = enqueue_loop h (advanceFrame (snd (compensate h w)))"
    by (simp add: enqueue_loop_skip)
next
  assume "running w \<and> frameIndex w < length (frames w) \<and> 0 \<le> fst (compensate h w)"
  then show "enqueue_loop h w = Some (Inr (setTimeout (fst (compensate h w)) (snd (compensate h w))))"
    by (simp add: enqueue_loop_schedule)
next
  assume "\<not> running w"
  then show "enqueue_loop h w = Some (Inr w)" by (rule enqueue_loop_stopped)
next
  assume "enqueueNextFrame h w = Some (Inr w1)"
  then have "enqueue_loop h (advanceFrame w) = Some (Inr w1)" by (simp add: enqueueNextFrame_def)
  from enqueue_loop_Inr[OF this]
  show "canvas w1 = canvas w"
    and "(\<not> running w1 \<and> trace w1 = trace w \<and> timeouts w1 = timeouts w) \<or>
       (running w1 \<and> (\<exists>d\<ge>0. trace w1 = trace w @ [SetTimeout d] \<and> timeouts w1 = timeouts w @ [d]))"
    by auto
next
  assume "enqueueNextFrame h w = Some (Inr w1)" and "running w1"
  then have "enqueue_loop h (advanceFrame w) = Some (Inr w1)" by (simp add: enqueueNextFrame_def)
  from enqueue_loop_last_state[OF this \<open>running w1\<close>]
  show "\<exists>v. running v \<and> frameIndex v < length (frames v) \<and> frames v = frames w \<and>
              trace v = trace w \<and> timeouts v = timeouts w \<and>
              0 \<le> fst (compensate h v) \<and>
              w1 = setTimeout (fst (compensate h v)) (snd (compensate h v))"
    by auto
next
  assume "run h es w = Some (Inr w2)"
  then show "\<exists>ds. scheduled (trace w2) = scheduled (trace w) @ ds \<and> (\<forall>d\<in>set ds. 0 \<le> d)"
    by (rule run_scheduled)
qed simp_all


theorem catch_up_schedules_no_negative_delay_witness:
  "running (start late_host varied_world) \<and>
   frameIndex (start late_host varied_world) < length (frames (start late_host varied_world)) \<and>
   fst (compensate late_host (start late_host varied_world)) < 0 \<and>
   fst (compensate late_host (start late_host varied_world)) = - 250 \<and>
   enqueue_loop late_host (start late_host varied_world) =
     enqueue_loop late_host (advanceFrame (snd (compensate late_host (start late_host varied_world)))) \<and>
   fst (compensate late_host (advanceFrame (snd (compensate late_host (start late_host varied_world)))))
     = - 220 \<and>
   running (start example_host varied_world) \<and>
   frameIndex (start example_host varied_world) < length (frames (start example_host varied_world)) \<and>
   0 \<le> fst (compensate example_host (start example_host varied_world)) \<and>
   fst (compensate example_host (start example_host varied_world)) = 96 \<and>
   enqueue_loop example_host (start example_host varied_world) =
     Some (Inr (setTimeout 96 (snd (compensate example_host (start example_host varied_world))))) \<and>
   \<not> running varied_world \<and>
   enqueue_loop late_host varied_world = Some (Inr varied_world) \<and>
   returned (enqueueNextFrame late_host (start late_host varied_world)) \<and>
   map_option (map_sum id playback) (enqueueNextFrame late_host (start late_host varied_world))
     = Some (Inr (True, 1, 1, [])) \<and>
   map_option (map_sum id timeouts) (enqueueNextFrame late_host (start late_host varied_world))
     = Some (Inr [0, 10]) \<and>
   returned (run late_host (ticks 2) (start late_host varied_world)) \<and>
   scheduled (trace (world_after late_host (ticks 2) (start late_host varied_world))) = [0, 10, 210] \<and>
   renders (trace (world_after late_host (ticks 2) (start late_host varied_world))) = [0, 1]"
proof -
  let ?w = "start late_host varied_world"
  let ?e = "start example_host varied_world"
  have 1: "running ?w" by simp
  have 2: "frameIndex ?w < length (frames ?w)" by code_simp
  have 3: "fst (compensate late_host ?w) = - 250" by code_simp
  have 4: "fst (compensate late_host (advanceFrame (snd (compensate late_host ?w)))) = - 220"
    by code_simp
  have 5: "running ?e" by simp
  have 6: "frameIndex ?e < length (frames ?e)" by code_simp
  have 7: "fst (compensate example_host ?e) = 96" by code_simp
  have 8: "\<not> running varied_world" by code_simp
  have 9: "returned (enqueueNextFrame late_host ?w)" by code_simp
  have 10: "map_option (map_sum id playback) (enqueueNextFrame late_host ?w)
     = Some (Inr (True, 1, 1, []))" by code_simp
  have 11: "map_option (map_sum id timeouts) (enqueueNextFrame late_host ?w) = Some (Inr [0, 10])"
    by code_simp
  have 12: "returned (run late_host (ticks 2) ?w)" by code_simp
  have 13: "scheduled (trace (world_after late_host (ticks 2) ?w)) = [0, 10, 210]" by code_simp
  have 14: "renders (trace (world_after late_host (ticks 2) ?w)) = [0, 1]" by code_simp
  from 3 have n3: "fst (compensate late_host ?w) < 0" by simp
  from 7 have n7: "0 \<le> fst (compensate example_host ?e)" by simp
  note t = catch_up_schedules_no_negative_delay[of late_host ?w,
      THEN conjunct2, THEN conjunct2, THEN conjunct2, THEN conjunct2, THEN conjunct2, THEN conjunct2, THEN conjunct1]
  from t 1 2 n3 have 15: "enqueue_loop late_host ?w
      = enqueue_loop late_host (advanceFrame (snd (compensate late_host ?w)))" by blast
  note u = catch_up_schedules_no_negative_delay[of example_host ?e,
      THEN conjunct2, THEN conjunct2, THEN conjunct2, THEN conjunct2, THEN conjunct2, THEN conjunct2, THEN conjunct2, THEN conjunct1]
  from u 5 6 n7 have "enqueue_loop example_host ?e
        = Some (Inr (setTimeout (fst (compensate example_host ?e)) (snd (compensate example_host ?e))))"
    by blast
  then have 16: "enqueue_loop example_host ?e
        = Some (Inr (setTimeout 96 (snd (compensate example_host ?e))))" unfolding 7 .
  note v = catch_up_schedules_no_negative_delay[of late_host varied_world,
      THEN conjunct2, THEN conjunct2, THEN conjunct2, THEN conjunct2, THEN conjunct2, THEN conjunct2, THEN conjunct2, THEN conjunct2, THEN conjunct1]
  from v 8 have 17: "enqueue_loop late_host varied_world = Some (Inr varied_world)" by blast
  from 1 2 n3 3 15 4 5 6 n7 7 16 8 17 9 10 11 12 13 14 show ?thesis by (intro conjI)
qed

text \<open>
  C3 (the code departs from it). In the example animation (three frames, loop count 1)
  the tick that exhausts the loops stops the animator with the frame index equal to
  the number of frames, outside \<open>[0, frameCount)\<close>; a \<^verbatim>\<open>start()\<close> after that makes the
  next tick read a frame that does not exist, and the frame hook throws.
\<close>

theorem auto_stop_leaves_frame_index_past_the_end:
  "length example_frames = 3 \<and>
   map_option (map_sum id playback) (run example_host (Start # ticks 6) example_world)
     = Some (Inr (False, 3, 1, [0, 1, 2, 0, 1, 2])) \<and>
   map_option (map_sum id playback) (run example_host (Start # ticks 6 @ Start # tick) example_world)
     = Some (Inl TypeError)"
  by code_simp

text \<open>
  C4. With a loop count of 0 no step of the scheduler clears the running flag:
  \<^verbatim>\<open>_advanceFrame\<close> leaves it as it is, and from a running state every sequence of
  events without a \<^verbatim>\<open>stop()\<close> call that returns, returns in a running state. (The only
  assignment of false is in \<^verbatim>\<open>stop()\<close>, which \<^verbatim>\<open>_advanceFrame\<close> calls only when the loop
  count is not 0.)
\<close>

theorem infinite_loop_never_stops:
  "loopCount w = 0 \<Longrightarrow>
     running (advanceFrame w) = running w \<and>
     (running w \<longrightarrow> Stop \<notin> set es \<longrightarrow> run h es w = Some (Inr w') \<longrightarrow> running w')"
  using run_forever[of h es w w'] by (simp add: advanceFrame_forever)

theorem infinite_loop_never_stops_witness:
  "loopCount (start example_host (example_world\<lparr>loopCount := 0\<rparr>)) = 0 \<and>
   running (start example_host (example_world\<lparr>loopCount := 0\<rparr>)) \<and>
   Stop \<notin> set (ticks 7) \<and>
   returned (run example_host (ticks 7) (start example_host (example_world\<lparr>loopCount := 0\<rparr>))) \<and>
   running (world_after example_host (ticks 7) (start example_host (example_world\<lparr>loopCount := 0\<rparr>)))"
proof -
  let ?w = "start example_host (example_world\<lparr>loopCount := 0\<rparr>)"
  have 1: "loopCount ?w = 0" by simp
  have 2: "running ?w" by simp
  have 3: "Stop \<notin> set (ticks 7)" by code_simp
  have 4: "returned (run example_host (ticks 7) ?w)" by code_simp
  from infinite_loop_never_stops[OF 1, of "ticks 7" example_host "world_after example_host (ticks 7) ?w"]
    2 3 run_world_after[OF 4]
  have "running (world_after example_host (ticks 7) ?w)" by blast
  with 1 2 3 4 show ?thesis by blast
qed

text \<open>
  C5, as the specification states it: every already-scheduled continuation tests the
  running flag and, when it is false, schedules no further continuation; and
  \<^verbatim>\<open>stop()\<close> takes effect at the next tick boundary, not in the middle of a tick. The
  code does neither. A pending timeout runs \<^verbatim>\<open>_nextFrame\<close>, which tests no flag: in the
  example animation stopped after two ticks, with one timeout pending, that timeout
  fires and requests an animation-frame callback. And the loop of
  \<^verbatim>\<open>_enqueueNextFrame\<close> reads the flag in the tick in which it was cleared: the tick
  that would show frame 2 and set the next timeout shows frame 2 and sets none when its
  drawing hook calls \<^verbatim>\<open>this.stop()\<close>; likewise the sixth tick of the example, in which
  \<^verbatim>\<open>_advanceFrame\<close> calls \<^verbatim>\<open>this.stop()\<close>, leaves no callback pending.
\<close>

theorem pending_timeout_ignores_the_running_flag:
  "\<not> running (world_after example_host (Start # ticks 2 @ [Stop]) example_world) \<and>
   timeouts (world_after example_host (Start # ticks 2 @ [Stop]) example_world) = [96] \<and>
   rafs (world_after example_host (Start # ticks 2 @ [Stop]) example_world) = 0 \<and>
   rafs (world_after example_host (Start # ticks 2 @ [Stop, TimeoutFires 0]) example_world) = 1 \<and>
   trace (world_after example_host (Start # ticks 2 @ [Stop, TimeoutFires 0]) example_world)
     = trace (world_after example_host (Start # ticks 2 @ [Stop]) example_world)
         @ [RequestAnimationFrame] \<and>
   run example_host [FrameFires]
       (world_after example_host (Start # ticks 2 @ [TimeoutFires 0]) example_world)
     = nextFrameRender example_host
         ((world_after example_host (Start # ticks 2 @ [TimeoutFires 0]) example_world)
            \<lparr>rafs := 0\<rparr>) \<and>
   map_option (map_sum id timeouts) (nextFrameRender example_host
       ((world_after example_host (Start # ticks 2 @ [TimeoutFires 0]) example_world)
          \<lparr>rafs := 0\<rparr>)) = Some (Inr [96]) \<and>
   map_option (map_sum id timeouts) (nextFrameRender_with stop example_host
       ((world_after example_host (Start # ticks 2 @ [TimeoutFires 0]) example_world)
          \<lparr>rafs := 0\<rparr>)) = Some (Inr []) \<and>
   map_option (map_sum id rafs) (nextFrameRender_with stop example_host
       ((world_after example_host (Start # ticks 2 @ [TimeoutFires 0]) example_world)
          \<lparr>rafs := 0\<rparr>)) = Some (Inr 0) \<and>
   map_option (map_sum id playback) (nextFrameRender_with stop example_host
       ((world_after example_host (Start # ticks 2 @ [TimeoutFires 0]) example_world)
          \<lparr>rafs := 0\<rparr>)) = Some (Inr (False, 0, 1, [0, 1, 2])) \<and>
   running (world_after example_host (Start # ticks 5) example_world) \<and>
   timeouts (world_after example_host (Start # ticks 5) example_world) = [96] \<and>
   playback (world_after example_host (Start # ticks 6) example_world)
     = (False, 3, 1, [0, 1, 2, 0, 1, 2]) \<and>
   timeouts (world_after example_host (Start # ticks 6) example_world) = [] \<and>
   rafs (world_after example_host (Start # ticks 6) example_world) = 0"
proof -
  let ?s = "world_after example_host (Start # ticks 2 @ [Stop]) example_world"
  let ?t = "world_after example_host (Start # ticks 2 @ [Stop, TimeoutFires 0]) example_world"
  let ?u = "world_after example_host (Start # ticks 2 @ [TimeoutFires 0]) example_world"
  let ?v = "?u\<lparr>rafs := 0\<rparr>"
  have 1: "\<not> running ?s" by code_simp
  have 2: "timeouts ?s = [96]" by code_simp
  have 3: "rafs ?s = 0" by code_simp
  have 4: "rafs ?t = 1" by code_simp
  have 5: "trace ?t = trace ?s @ [RequestAnimationFrame]" by code_simp
  have 6: "run example_host [FrameFires] ?u = nextFrameRender example_host ?v" by code_simp
  have 7: "map_option (map_sum id timeouts) (nextFrameRender example_host ?v) = Some (Inr [96])"
    by code_simp
  have 8: "map_option (map_sum id timeouts) (nextFrameRender_with stop example_host ?v)
      = Some (Inr [])" by code_simp
  have 9: "map_option (map_sum id rafs) (nextFrameRender_with stop example_host ?v)
      = Some (Inr 0)" by code_simp
  have 10: "map_option (map_sum id playback) (nextFrameRender_with stop example_host ?v)
      = Some (Inr (False, 0, 1, [0, 1, 2]))" by code_simp
  have 11: "running (world_after example_host (Start # ticks 5) example_world)" by code_simp
  have 12: "timeouts (world_after example_host (Start # ticks 5) example_world) = [96]"
    by code_simp
  have 13: "playback (world_after example_host (Start # ticks 6) example_world)
     = (False, 3, 1, [0, 1, 2, 0, 1, 2])" by code_simp
  have 14: "timeouts (world_after example_host (Start # ticks 6) example_world) = []"
    by code_simp
  have 15: "rafs (world_after example_host (Start # ticks 6) example_world) = 0" by code_simp
  show ?thesis
    by (intro conjI) (rule 1 2 3 4 5 6 7 8 9 10 11 12 13 14 15)+
qed


text \<open>
  C5, as the code has it. \<^verbatim>\<open>stop()\<close> sets the running flag to false and changes nothing
  else. Of the two continuations only \<^verbatim>\<open>_nextFrameRender\<close>, the animation-frame
  callback, tests the flag: when it is false it returns at once, and the state, the
  canvas, the pending callbacks and the log of effects are exactly as before. A pending
  timeout that fires after \<^verbatim>\<open>stop()\<close> still runs \<^verbatim>\<open>_nextFrame\<close>, which requests one
  animation-frame callback without looking at the flag. Hence after \<^verbatim>\<open>stop()\<close>,
  whatever callbacks fire and whatever \<^verbatim>\<open>stop\<close> and \<^verbatim>\<open>reset\<close> calls follow, as long as
  \<^verbatim>\<open>start()\<close> is not called every event returns, the animator stays stopped, and the
  only effects are requests of an animation frame, at most one for each timeout that was
  pending: no hook is called, no frame is shown, no timeout is set, the canvas is not
  touched, and the number of pending callbacks does not grow. A \<^verbatim>\<open>stop()\<close> made in the
  middle of a tick takes effect in that tick: when the drawing hook of a running
  animator calls it, the tick still shows its frame and advances the position, and then
  returns without setting a timeout or requesting a frame; and when \<^verbatim>\<open>_advanceFrame\<close>
  calls it, \<^verbatim>\<open>_enqueueNextFrame\<close> returns at once and schedules nothing.
\<close>

theorem stop_ends_rendering:
  "running (stop w) = False \<and> frameIndex (stop w) = frameIndex w \<and> loops (stop w) = loops w \<and>
   lastTime (stop w) = lastTime w \<and> delayCompensation (stop w) = delayCompensation w \<and>
   disposeFrame (stop w) = disposeFrame w \<and> canvas (stop w) = canvas w \<and>
   frames (stop w) = frames w \<and> loopCount (stop w) = loopCount w \<and>
   clockReads (stop w) = clockReads w \<and> timeouts (stop w) = timeouts w \<and>
   rafs (stop w) = rafs w \<and> trace (stop w) = trace w \<and>
   nextFrameRender h (stop w) = Some (Inr (stop w)) \<and>
   (i < length (timeouts w) \<longrightarrow>
      fire h (TimeoutFires i) (stop w)
        = Some (Inr (nextFrame ((stop w)\<lparr>timeouts := take i (timeouts w) @ drop (Suc i) (timeouts w)\<rparr>))) \<and>
      rafs (nextFrame ((stop w)\<lparr>timeouts := take i (timeouts w) @ drop (Suc i) (timeouts w)\<rparr>))
        = Suc (rafs w) \<and>
      trace (nextFrame ((stop w)\<lparr>timeouts := take i (timeouts w) @ drop (Suc i) (timeouts w)\<rparr>))
        = trace w @ [RequestAnimationFrame]) \<and>
   (Start \<notin> set es \<longrightarrow>
      (\<exists>w' n. run h es (stop w) = Some (Inr w') \<and> \<not> running w' \<and>
            trace w' = trace w @ replicate n RequestAnimationFrame \<and>
            n + length (timeouts w') \<le> length (timeouts w) \<and>
            rafs w' + length (timeouts w') \<le> rafs w + length (timeouts w) \<and>
            renders (trace w') = renders (trace w) \<and>
            scheduled (trace w') = scheduled (trace w) \<and>
            canvas w' = canvas w \<and> disposeFrame w' = disposeFrame w)) \<and>
   nextFrameRender_with id h w = nextFrameRender h w \<and>
   (running w \<and> frameIndex w < length (frames w) \<longrightarrow>
      (\<exists>w'. nextFrameRender_with stop h w = Some (Inr w') \<and>
            w' = advanceFrame (stop (onFrame h (frames w ! frameIndex w) (frameIndex w)
                   (w\<lparr>trace := trace w @ [OnFrame (frameIndex w)]\<rparr>))) \<and>
            \<not> running w' \<and>
            renders (trace w') = renders (trace w) @ [frameIndex w] \<and>
            scheduled (trace w') = scheduled (trace w) \<and>
            timeouts w' = timeouts w \<and> rafs w' = rafs w \<and>
            frameIndex w' = frameIndex (advanceFrame w) \<and> loops w' = loops (advanceFrame w))) \<and>
   (\<not> running (advanceFrame w) \<longrightarrow>
      enqueueNextFrame h w = Some (Inr (advanceFrame w)) \<and>
      timeouts (advanceFrame w) = timeouts w \<and> rafs (advanceFrame w) = rafs w \<and>
      trace (advanceFrame w) = trace w)"
proof -
  have timer: "i < length (timeouts w) \<longrightarrow>
      fire h (TimeoutFires i) (stop w)
        = Some (Inr (nextFrame ((stop w)\<lparr>timeouts := take i (timeouts w) @ drop (Suc i) (timeouts w)\<rparr>)))"
    by (simp add: fire_def)
  have later: "\<exists>w' n. run h es (stop w) = Some (Inr w') \<and> \<not> running w' \<and>
            trace w' = trace w @ replicate n RequestAnimationFrame \<and>
            n + length (timeouts w') \<le> length (timeouts w) \<and>
            rafs w' + length (timeouts w') \<le> rafs w + length (timeouts w) \<and>
            renders (trace w') = renders (trace w) \<and>
            scheduled (trace w') = scheduled (trace w) \<and>
            canvas w' = canvas w \<and> disposeFrame w' = disposeFrame w"
    if ns: "Start \<notin> set es"
  proof -
    have st: "\<not> running (stop w)" by simp
    from run_stopped_trace[OF st ns, of h]
    obtain w' n where a: "run h es (stop w) = Some (Inr w')" "\<not> running w'"
      "trace w' = trace w @ replicate n RequestAnimationFrame"
      "n + length (timeouts w') \<le> length (timeouts w)"
      "rafs w' + length (timeouts w') \<le> rafs w + length (timeouts w)" by auto
    from run_stopped[OF st ns, of h] a(1)
    have b: "canvas w' = canvas w" "disposeFrame w' = disposeFrame w" by auto
    from a(3) have c: "renders (trace w') = renders (trace w)"
      "scheduled (trace w') = scheduled (trace w)" by simp_all
    from a b c show ?thesis by blast
  qed
  have hook: "\<exists>w'. nextFrameRender_with stop h w = Some (Inr w') \<and>
            w' = advanceFrame (stop (onFrame h (frames w ! frameIndex w) (frameIndex w)
                   (w\<lparr>trace := trace w @ [OnFrame (frameIndex w)]\<rparr>))) \<and>
            \<not> running w' \<and>
            renders (trace w') = renders (trace w) @ [frameIndex w] \<and>
            scheduled (trace w') = scheduled (trace w) \<and>
            timeouts w' = timeouts w \<and> rafs w' = rafs w \<and>
            frameIndex w' = frameIndex (advanceFrame w) \<and> loops w' = loops (advanceFrame w)"
    if r: "running w \<and> frameIndex w < length (frames w)"
  proof -
    let ?x = "stop (onFrame h (frames w ! frameIndex w) (frameIndex w)
                   (w\<lparr>trace := trace w @ [OnFrame (frameIndex w)]\<rparr>))"
    from r have 1: "nextFrameRender_with stop h w = Some (Inr (advanceFrame ?x))"
      by (simp add: nextFrameRender_with_stop)
    have 2: "\<not> running (advanceFrame ?x)" by (simp add: advanceFrame_running)
    have 3: "renders (trace (advanceFrame ?x)) = renders (trace w) @ [frameIndex w]"
      by (simp add: renders_onFrame)
    have 4: "scheduled (trace (advanceFrame ?x)) = scheduled (trace w)"
      by (simp add: scheduled_onFrame)
    have 5: "timeouts (advanceFrame ?x) = timeouts w" "rafs (advanceFrame ?x) = rafs w"
      by simp_all
    have 6: "frameIndex (advanceFrame ?x) = frameIndex (advanceFrame w)"
      "loops (advanceFrame ?x) = loops (advanceFrame w)"
      by (simp_all add: advanceFrame_frameIndex advanceFrame_loops)
    from 1 2 3 4 5 6 show ?thesis by blast
  qed
  have auto_stop: "\<not> running (advanceFrame w) \<longrightarrow>
      enqueueNextFrame h w = Some (Inr (advanceFrame w))"
    by (simp add: enqueueNextFrame_def enqueue_loop_stopped)
  from timer later hook auto_stop show ?thesis
    by (simp add: nextFrameRender_stopped nextFrameRender_with_id)
qed


theorem stop_ends_rendering_witness:
  "Start \<notin> set (tick @ [Reset] @ tick) \<and>
   returned (run example_host (tick @ [Reset] @ tick)
     (stop (world_after example_host (Start # ticks 2) example_world))) \<and>
   playback (world_after example_host (Start # ticks 2 @ [Stop] @ tick @ [Reset] @ tick) example_world)
     = (False, 0, 0, [0, 1]) \<and>
   0 < length (timeouts (world_after example_host (Start # ticks 2) example_world)) \<and>
   returned (fire example_host (TimeoutFires 0)
     (stop (world_after example_host (Start # ticks 2) example_world))) \<and>
   running ((world_after example_host (Start # ticks 2 @ [TimeoutFires 0]) example_world)
      \<lparr>rafs := 0\<rparr>) \<and>
   frameIndex ((world_after example_host (Start # ticks 2 @ [TimeoutFires 0]) example_world)
      \<lparr>rafs := 0\<rparr>) = 2 \<and>
   length (frames ((world_after example_host (Start # ticks 2 @ [TimeoutFires 0]) example_world)
      \<lparr>rafs := 0\<rparr>)) = 3 \<and>
   returned (nextFrameRender_with stop example_host
     ((world_after example_host (Start # ticks 2 @ [TimeoutFires 0]) example_world)
        \<lparr>rafs := 0\<rparr>)) \<and>
   running (world_after example_host (Start # ticks 5) example_world) \<and>
   running (advanceFrame (world_after example_host (Start # ticks 5) example_world)) = False \<and>
   enqueueNextFrame example_host (world_after example_host (Start # ticks 5) example_world)
     = Some (Inr (advanceFrame (world_after example_host (Start # ticks 5) example_world)))"
proof -
  let ?w = "world_after example_host (Start # ticks 2) example_world"
  let ?v = "(world_after example_host (Start # ticks 2 @ [TimeoutFires 0]) example_world)
      \<lparr>rafs := 0\<rparr>"
  let ?z = "world_after example_host (Start # ticks 5) example_world"
  let ?es = "tick @ [Reset] @ tick"
  have ns: "Start \<notin> set ?es" by (simp add: tick_def)
  have p: "playback (world_after example_host (Start # ticks 2 @ [Stop] @ tick @ [Reset] @ tick) example_world)
     = (False, 0, 0, [0, 1])" by code_simp
  have t0: "0 < length (timeouts ?w)" by code_simp
  have v1: "running ?v" by code_simp
  have v2: "frameIndex ?v = 2" by code_simp
  have v3: "length (frames ?v) = 3" by code_simp
  have z1: "running ?z" by code_simp
  have z2: "running (advanceFrame ?z) = False" by code_simp
  note a = stop_ends_rendering[of ?w example_host 0 ?es]
  from a have "Start \<notin> set ?es \<longrightarrow> (\<exists>w'. run example_host ?es (stop ?w) = Some (Inr w'))"
    by blast
  with ns have r1: "returned (run example_host ?es (stop ?w))" by (simp add: returned_iff)
  from a have "0 < length (timeouts ?w) \<longrightarrow>
      (\<exists>w'. fire example_host (TimeoutFires 0) (stop ?w) = Some (Inr w'))"
    by blast
  with t0 have r2: "returned (fire example_host (TimeoutFires 0) (stop ?w))"
    by (simp add: returned_iff)
  note b = stop_ends_rendering[of ?v example_host 0 "[]"]
  from b have "running ?v \<and> frameIndex ?v < length (frames ?v) \<longrightarrow>
      (\<exists>w'. nextFrameRender_with stop example_host ?v = Some (Inr w'))"
    by blast
  with v1 v2 v3 have r3: "returned (nextFrameRender_with stop example_host ?v)"
    by (simp add: returned_iff)
  note c = stop_ends_rendering[of ?z example_host 0 "[]"]
  from c have "\<not> running (advanceFrame ?z) \<longrightarrow>
      enqueueNextFrame example_host ?z = Some (Inr (advanceFrame ?z))"
    by blast
  with z2 have r4: "enqueueNextFrame example_host ?z = Some (Inr (advanceFrame ?z))" by simp
  show ?thesis
    by (intro conjI) (rule ns r1 p t0 r2 v1 v2 v3 r3 z1 z2 r4)+
qed

text \<open>
  C6. \<^verbatim>\<open>start()\<close> sets the running flag, sets \<^verbatim>\<open>_lastTime\<close> to the current time and
  \<^verbatim>\<open>_delayCompensation\<close> to 0, and calls \<^verbatim>\<open>setTimeout\<close> with delay 0 for the first
  tick; the frame index, the loop counter and everything else stay as they were.
  Hence when \<^verbatim>\<open>stop()\<close> and then \<^verbatim>\<open>start()\<close> are called in the middle of playback (the
  frame index is that of a frame), the tick that \<^verbatim>\<open>start()\<close> scheduled shows the frame
  at the current index, not frame 0: that tick is \<^verbatim>\<open>_enqueueNextFrame\<close> called in a
  state where the frame hook has already been called with the current index and has
  drawn that frame, with the bookkeeping as \<^verbatim>\<open>start()\<close> set it, whether or not the
  catch-up loop that follows ever returns. The tick does return, having shown that
  frame, whenever the first delay it computes is not negative or the animation has a
  loop limit it has not passed; and whenever it returns it has shown that frame.
\<close>

theorem start_resumes_from_current_frame:
  "running (start h w) \<and> lastTime (start h w) = clock h (clockReads w) \<and>
   delayCompensation (start h w) = 0 \<and> timeouts (start h w) = timeouts w @ [0] \<and>
   trace (start h w) = trace w @ [SetTimeout 0] \<and>
   frameIndex (start h w) = frameIndex w \<and> loops (start h w) = loops w \<and>
   frames (start h w) = frames w \<and> loopCount (start h w) = loopCount w \<and>
   disposeFrame (start h w) = disposeFrame w \<and> canvas (start h w) = canvas w \<and>
   rafs (start h w) = rafs w \<and>
   (frameIndex w < length (frames w) \<longrightarrow>
    run h [Stop, Start, TimeoutFires (length (timeouts w)), FrameFires] w = Some (Inr w') \<longrightarrow>
      renders (trace w') = renders (trace w) @ [frameIndex w]) \<and>
   run h [Stop, Start, TimeoutFires (length (timeouts w))] w
     = Some (Inr ((restarted h w)\<lparr>rafs := Suc (rafs w)\<rparr>)) \<and>
   running (restarted h w) \<and> frameIndex (restarted h w) = frameIndex w \<and>
   loops (restarted h w) = loops w \<and> frames (restarted h w) = frames w \<and>
   delayCompensation (restarted h w) = 0 \<and> lastTime (restarted h w) = clock h (clockReads w) \<and>
   trace (restarted h w) = trace w @ [SetTimeout 0, RequestAnimationFrame] \<and>
   (frameIndex w < length (frames w) \<longrightarrow>
      run h [Stop, Start, TimeoutFires (length (timeouts w)), FrameFires] w =
        enqueueNextFrame h
          (onFrame h (frames w ! frameIndex w) (frameIndex w)
             ((restarted h w)\<lparr>trace := trace (restarted h w) @ [OnFrame (frameIndex w)]\<rparr>)) \<and>
      renders (trace (onFrame h (frames w ! frameIndex w) (frameIndex w)
             ((restarted h w)\<lparr>trace := trace (restarted h w) @ [OnFrame (frameIndex w)]\<rparr>)))
        = renders (trace w) @ [frameIndex w] \<and>
      last (trace (onFrame h (frames w ! frameIndex w) (frameIndex w)
             ((restarted h w)\<lparr>trace := trace (restarted h w) @ [OnFrame (frameIndex w)]\<rparr>)))
        = OnDrawFrame (frameIndex w)) \<and>
   (frameIndex w < length (frames w) \<and>
    (punctual h (start h w) \<or> (loopCount w \<noteq> 0 \<and> loops w \<le> loopCount w)) \<longrightarrow>
      (\<exists>w1. run h [Stop, Start, TimeoutFires (length (timeouts w)), FrameFires] w = Some (Inr w1) \<and>
            renders (trace w1) = renders (trace w) @ [frameIndex w]))"
proof (intro conjI impI)
  assume "frameIndex w < length (frames w)"
    and "run h [Stop, Start, TimeoutFires (length (timeouts w)), FrameFires] w = Some (Inr w')"
  then have "nextFrameRender h (restarted h w) = Some (Inr w')" by (simp only: run_restart)
  from nextFrameRender_Inr[OF this] show "renders (trace w') = renders (trace w) @ [frameIndex w]"
    by (simp add: restarted_fields)
next
  show "run h [Stop, Start, TimeoutFires (length (timeouts w))] w
     = Some (Inr ((restarted h w)\<lparr>rafs := Suc (rafs w)\<rparr>))"
    by (simp add: fire_def restarted_def nextFrame_def requestAnimationFrame_def)
next
  assume "frameIndex w < length (frames w)"
  then show "run h [Stop, Start, TimeoutFires (length (timeouts w)), FrameFires] w =
        enqueueNextFrame h
          (onFrame h (frames w ! frameIndex w) (frameIndex w)
             ((restarted h w)\<lparr>trace := trace (restarted h w) @ [OnFrame (frameIndex w)]\<rparr>))"
    by (simp only: run_restart) (simp add: nextFrameRender_def restarted_fields)
next
  show "renders (trace (onFrame h (frames w ! frameIndex w) (frameIndex w)
             ((restarted h w)\<lparr>trace := trace (restarted h w) @ [OnFrame (frameIndex w)]\<rparr>)))
        = renders (trace w) @ [frameIndex w]"
    by (simp add: renders_onFrame restarted_fields)
next
  show "last (trace (onFrame h (frames w ! frameIndex w) (frameIndex w)
             ((restarted h w)\<lparr>trace := trace (restarted h w) @ [OnFrame (frameIndex w)]\<rparr>)))
        = OnDrawFrame (frameIndex w)"
    by (simp add: onFrame_trace)
next
  assume a: "frameIndex w < length (frames w) \<and>
    (punctual h (start h w) \<or> (loopCount w \<noteq> 0 \<and> loops w \<le> loopCount w))"
  have "punctual h (restarted h w) = punctual h (start h w)"
    by (rule punctual_cong) (simp_all add: restarted_fields)
  with a have "punctual h (restarted h w) \<or>
      (loopCount (restarted h w) \<noteq> 0 \<and> loops (restarted h w) \<le> loopCount (restarted h w))"
    by (simp add: restarted_fields)
  moreover from a have "frameIndex (restarted h w) < length (frames (restarted h w))"
    by (simp add: restarted_fields)
  ultimately obtain w1 where w1: "nextFrameRender h (restarted h w) = Some (Inr w1)"
    using nextFrameRender_returns[of "restarted h w" h] by (auto simp: restarted_fields)
  from nextFrameRender_Inr[OF w1]
  have "renders (trace w1) = renders (trace w) @ [frameIndex w]" by (simp add: restarted_fields)
  with w1 show "\<exists>w1. run h [Stop, Start, TimeoutFires (length (timeouts w)), FrameFires] w = Some (Inr w1) \<and>
            renders (trace w1) = renders (trace w) @ [frameIndex w]"
    by (simp only: run_restart) blast
qed (simp_all add: restarted_fields)


theorem start_resumes_from_current_frame_witness:
  "frameIndex (world_after example_host (Start # ticks 2) example_world)
     < length (frames (world_after example_host (Start # ticks 2) example_world)) \<and>
   returned (run example_host [Stop, Start, TimeoutFires 1, FrameFires]
     (world_after example_host (Start # ticks 2) example_world)) \<and>
   renders (trace (world_after example_host [Stop, Start, TimeoutFires 1, FrameFires]
     (world_after example_host (Start # ticks 2) example_world))) = [0, 1, 2] \<and>
   0 < loopCount (world_after example_host (Start # ticks 2) example_world) \<and>
   loops (world_after example_host (Start # ticks 2) example_world)
     \<le> loopCount (world_after example_host (Start # ticks 2) example_world) \<and>
   (\<exists>w1. run example_host [Stop, Start, TimeoutFires 1, FrameFires]
           (world_after example_host (Start # ticks 2) example_world) = Some (Inr w1) \<and>
         renders (trace w1) = [0, 1, 2]) \<and>
   frameIndex stalling_world < length (frames stalling_world) \<and>
   renders (trace stalling_world) = [] \<and>
   run jump_host [Stop, Start, TimeoutFires 1, FrameFires] stalling_world = None \<and>
   renders (trace (onFrame jump_host (frames stalling_world ! 0) 0
      ((restarted jump_host stalling_world)
         \<lparr>trace := trace (restarted jump_host stalling_world) @ [OnFrame 0]\<rparr>))) = [0]"
proof -
  let ?w = "world_after example_host (Start # ticks 2) example_world"
  let ?es = "[Stop, Start, TimeoutFires 1, FrameFires]"
  let ?x = "onFrame jump_host (frames stalling_world ! 0) 0
      ((restarted jump_host stalling_world)
         \<lparr>trace := trace (restarted jump_host stalling_world) @ [OnFrame 0]\<rparr>)"
  have 1: "frameIndex ?w < length (frames ?w)" by code_simp
  have 2: "returned (run example_host ?es ?w)" by code_simp
  have 3: "length (timeouts ?w) = 1" by code_simp
  have 4: "renders (trace ?w) = [0, 1]" by code_simp
  have 5: "frameIndex ?w = 2" by code_simp
  have 6: "0 < loopCount ?w" by code_simp
  have 7: "loops ?w \<le> loopCount ?w" by code_simp
  have s1: "frameIndex stalling_world < length (frames stalling_world)" by code_simp
  have s2: "length (timeouts stalling_world) = 1" by code_simp
  have s3: "frameIndex stalling_world = 0" by code_simp
  have s4: "renders (trace stalling_world) = []" by code_simp
  have h1: "running (advanceFrame ?x)" by code_simp
  have h2: "length (frames (advanceFrame ?x)) = 1" by code_simp
  have h3: "delay (frames (advanceFrame ?x) ! 0) = 0" by code_simp
  have h4: "loopCount (advanceFrame ?x) = 0" by code_simp
  have h5: "frameIndex (advanceFrame ?x) = 0" by code_simp
  have h6: "2 \<le> clockReads (advanceFrame ?x)" by code_simp
  have h7: "0 < delayCompensation (advanceFrame ?x) + (1350 - lastTime (advanceFrame ?x))"
    by code_simp
  have hang: "enqueueNextFrame jump_host ?x = None"
    unfolding enqueueNextFrame_def by (rule zero_delay_loop_hangs[OF h1 h2 h3 h4 h5 h6 h7])
  note t = start_resumes_from_current_frame[of example_host ?w "world_after example_host ?es ?w",
      unfolded 3]
  from t have "frameIndex ?w < length (frames ?w) \<longrightarrow>
      run example_host ?es ?w = Some (Inr (world_after example_host ?es ?w)) \<longrightarrow>
      renders (trace (world_after example_host ?es ?w)) = renders (trace ?w) @ [frameIndex ?w]"
    by blast
  with 1 run_world_after[OF 2]
  have "renders (trace (world_after example_host ?es ?w)) = renders (trace ?w) @ [frameIndex ?w]"
    by blast
  then have a: "renders (trace (world_after example_host ?es ?w)) = [0, 1, 2]"
    unfolding 4 5 by simp
  from a run_world_after[OF 2]
  have b: "\<exists>w1. run example_host ?es ?w = Some (Inr w1) \<and> renders (trace w1) = [0, 1, 2]"
    by blast
  note u = start_resumes_from_current_frame[of jump_host stalling_world stalling_world,
      unfolded s2 s3]
  from u have "0 < length (frames stalling_world) \<longrightarrow>
      run jump_host ?es stalling_world = enqueueNextFrame jump_host ?x \<and>
      renders (trace ?x) = renders (trace stalling_world) @ [0] \<and>
      last (trace ?x) = OnDrawFrame 0"
    by blast
  with s1[unfolded s3] have "run jump_host ?es stalling_world = enqueueNextFrame jump_host ?x"
      and "renders (trace ?x) = renders (trace stalling_world) @ [0]"
    by blast+
  then have c: "run jump_host ?es stalling_world = None" and d: "renders (trace ?x) = [0]"
    unfolding hang s4 by simp_all
  from 1 2 a 6 7 b s1 s4 c d show ?thesis by blast
qed

text \<open>
  C7. In every state, \<^verbatim>\<open>reset()\<close> sets the frame index and the loop counter to 0 and
  leaves everything else as it was: the running flag, the timing bookkeeping, the
  pending disposal, the canvas, the frames, the pending callbacks and the log of
  effects, so it neither shows a frame nor schedules a tick.
\<close>

theorem reset_rewinds:
  "frameIndex (reset w) = 0 \<and> loops (reset w) = 0 \<and> running (reset w) = running w \<and>
   lastTime (reset w) = lastTime w \<and> delayCompensation (reset w) = delayCompensation w \<and>
   disposeFrame (reset w) = disposeFrame w \<and> canvas (reset w) = canvas w \<and>
   frames (reset w) = frames w \<and> loopCount (reset w) = loopCount w \<and>
   gif_width (reset w) = gif_width w \<and> gif_height (reset w) = gif_height w \<and>
   clockReads (reset w) = clockReads w \<and> timeouts (reset w) = timeouts w \<and>
   rafs (reset w) = rafs w \<and> trace (reset w) = trace w \<and>
   fire h Reset w = Some (Inr (reset w))"
  by (simp add: reset_def fire_def)

text \<open>
  C8. The animator has one field for the pending disposal. A call of the default
  frame hook for a frame \<open>f\<close> first runs the action that was pending (installed by the
  frame shown before), then installs the action chosen by \<open>f\<close>'s own disposal code (for
  code 3 with a snapshot of the canvas taken at that point, before \<open>f\<close> is drawn), then draws
  \<open>f\<close>: the action of \<open>f\<close> is not run in that call. In the next call of the hook, for a
  frame \<open>g\<close>, the action installed by \<open>f\<close> is run before \<open>g\<close> is drawn: \<open>g\<close> is drawn on the
  cleared canvas after code 2, on the canvas as it was before \<open>f\<close> was drawn after code 3,
  and on the canvas left by \<open>f\<close> otherwise. A tick leaves the canvas and the pending
  action as its call of the hook left them, and an event that shows no frame changes
  neither.
\<close>

theorem pending_disposal_runs_before_next_draw:
  "disposeFrame (onFrame h f i w) =
     (if disposal f = 2 then Some ClearRect
      else if disposal f = 3
        then Some (PutImageData (case disposeFrame w of None \<Rightarrow> canvas w | Some d \<Rightarrow> run_dispose d (canvas w)))
      else None) \<and>
   canvas (onFrame h f i w) =
     onDrawFrame h (case disposeFrame w of None \<Rightarrow> canvas w | Some d \<Rightarrow> run_dispose d (canvas w))
       (lazyBuffer h w f) i \<and>
   trace (onFrame h f i w) =
     trace w @ (case disposeFrame w of None \<Rightarrow> [] | Some d \<Rightarrow> [DisposeFrame d])
       @ (if disposal f = 3 then [GetImageData] else []) @ [OnDrawFrame i] \<and>
   canvas (onFrame h g j (onFrame h f i w)) =
     onDrawFrame h
       (if disposal f = 2 then map (\<lambda>_. 0) (canvas (onFrame h f i w))
        else if disposal f = 3
          then (case disposeFrame w of None \<Rightarrow> canvas w | Some d \<Rightarrow> run_dispose d (canvas w))
        else canvas (onFrame h f i w))
       (lazyBuffer h w g) j \<and>
   trace (onFrame h g j (onFrame h f i w)) =
     trace (onFrame h f i w)
       @ (if disposal f = 2 then [DisposeFrame ClearRect]
          else if disposal f = 3
            then [DisposeFrame (PutImageData
                    (case disposeFrame w of None \<Rightarrow> canvas w | Some d \<Rightarrow> run_dispose d (canvas w)))]
          else [])
       @ (if disposal g = 3 then [GetImageData] else []) @ [OnDrawFrame j] \<and>
   (running w \<and> nextFrameRender h w = Some (Inr w1) \<longrightarrow>
      canvas w1 = canvas (onFrame h (frames w ! frameIndex w) (frameIndex w) w) \<and>
      disposeFrame w1 = disposeFrame (onFrame h (frames w ! frameIndex w) (frameIndex w) w)) \<and>
   (fire h e w = Some (Inr w2) \<and> renders (trace w2) = renders (trace w) \<longrightarrow>
      canvas w2 = canvas w \<and> disposeFrame w2 = disposeFrame w)"
proof (intro conjI impI)
  show "canvas (onFrame h g j (onFrame h f i w)) =
     onDrawFrame h
       (if disposal f = 2 then map (\<lambda>_. 0) (canvas (onFrame h f i w))
        else if disposal f = 3
          then (case disposeFrame w of None \<Rightarrow> canvas w | Some d \<Rightarrow> run_dispose d (canvas w))
        else canvas (onFrame h f i w))
       (lazyBuffer h w g) j"
    by (simp add: onFrame_canvas[of h g j] onFrame_disposeFrame run_dispose_def)
  show "trace (onFrame h g j (onFrame h f i w)) =
     trace (onFrame h f i w)
       @ (if disposal f = 2 then [DisposeFrame ClearRect]
          else if disposal f = 3
            then [DisposeFrame (PutImageData
                    (case disposeFrame w of None \<Rightarrow> canvas w | Some d \<Rightarrow> run_dispose d (canvas w)))]
          else [])
       @ (if disposal g = 3 then [GetImageData] else []) @ [OnDrawFrame j]"
    by (simp add: onFrame_trace[of h g j] onFrame_disposeFrame)
next
  assume "running w \<and> nextFrameRender h w = Some (Inr w1)"
  then have "nextFrameRender h w = Some (Inr w1)" and "running w" by simp_all
  from nextFrameRender_canvas[OF this]
  show "canvas w1 = canvas (onFrame h (frames w ! frameIndex w) (frameIndex w) w)"
    and "disposeFrame w1 = disposeFrame (onFrame h (frames w ! frameIndex w) (frameIndex w) w)"
    by simp_all
next
  assume "fire h e w = Some (Inr w2) \<and> renders (trace w2) = renders (trace w)"
  then have "fire h e w = Some (Inr w2)" and "renders (trace w2) = renders (trace w)" by simp_all
  from fire_no_render[OF this]
  show "canvas w2 = canvas w" and "disposeFrame w2 = disposeFrame w" by simp_all
qed (simp_all only: onFrame_disposeFrame onFrame_canvas onFrame_trace)



theorem pending_disposal_runs_before_next_draw_witness:
  "running ((world_after example_host [Start, TimeoutFires 0] example_world)\<lparr>rafs := 0\<rparr>) \<and>
   returned (nextFrameRender example_host
     ((world_after example_host [Start, TimeoutFires 0] example_world)\<lparr>rafs := 0\<rparr>)) \<and>
   canvas (world_after example_host [Start, TimeoutFires 0, FrameFires] example_world) =
     canvas (onFrame example_host (example_frame 10 0) 0
       ((world_after example_host [Start, TimeoutFires 0] example_world)\<lparr>rafs := 0\<rparr>)) \<and>
   returned (fire example_host (TimeoutFires 0) (start example_host example_world)) \<and>
   renders (trace (world_after example_host [TimeoutFires 0] (start example_host example_world)))
     = renders (trace (start example_host example_world)) \<and>
   canvas (world_after example_host [TimeoutFires 0] (start example_host example_world))
     = canvas (start example_host example_world)"
proof -
  let ?s = "start example_host example_world"
  let ?n = "(world_after example_host [Start, TimeoutFires 0] example_world)\<lparr>rafs := 0\<rparr>"
  let ?w1 = "world_after example_host [Start, TimeoutFires 0, FrameFires] example_world"
  let ?w2 = "world_after example_host [TimeoutFires 0] ?s"
  have 1: "running ?n" by code_simp
  have 2: "nextFrameRender example_host ?n = Some (Inr ?w1)" by code_simp
  have 3: "frames ?n ! 0 = example_frame 10 0" by code_simp
  have 4: "frameIndex ?n = 0" by code_simp
  have 5: "fire example_host (TimeoutFires 0) ?s = Some (Inr ?w2)" by code_simp
  have 6: "renders (trace ?w2) = renders (trace ?s)" by code_simp
  note t = pending_disposal_runs_before_next_draw[of example_host _ _ ?n _ _ ?w1]
  from t 1 2 have "canvas ?w1 = canvas (onFrame example_host (frames ?n ! frameIndex ?n) (frameIndex ?n) ?n)"
    by blast
  then have 7: "canvas ?w1 = canvas (onFrame example_host (example_frame 10 0) 0 ?n)"
    unfolding 4 3 .
  note u = pending_disposal_runs_before_next_draw[of example_host _ _ ?s _ _ _ "TimeoutFires 0" ?w2]
  from u 5 6 have 8: "canvas ?w2 = canvas ?s" by blast
  from 2 have 9: "returned (nextFrameRender example_host ?n)" by (simp add: returned_def)
  from 5 have 10: "returned (fire example_host (TimeoutFires 0) ?s)" by (simp add: returned_def)
  from 1 9 7 10 6 8 show ?thesis by blast
qed

text \<open>
  C9. When the reader's frame count is not negative and the reader has metadata for
  every index below it, \<^verbatim>\<open>decodeFramesSync\<close> returns exactly that many frames, the
  \<open>j\<close>-th being what \<^verbatim>\<open>decodeFrame\<close> returns for index \<open>j\<close>: the metadata of frame \<open>j\<close>
  together with a pixel buffer of \<open>width * height * 4\<close> bytes of the whole canvas, which
  is a new zero-filled buffer changed by the reader's blit of frame \<open>j\<close> only, and no
  canvas buffer yet.
\<close>

theorem decodeFramesSync_decodes_every_frame:
  assumes "0 \<le> numFrames r" and "\<forall>i. 0 \<le> i \<and> i < numFrames r \<longrightarrow> frameInfo r i \<noteq> None"
  shows "\<exists>fs. decodeFramesSync r = Inr fs \<and> length fs = nat (numFrames r) \<and>
     (\<forall>j < length fs.
        decodeFrame r (int j) = Inr (fs ! j) \<and>
        frameInfo r (int j) = Some (frame_info.truncate (fs ! j)) \<and>
        length (pixels (fs ! j)) = reader_width r * reader_height r * 4 \<and>
        pixels (fs ! j) =
          fold assign (blit r (int j)) (replicate (reader_width r * reader_height r * 4) 0) \<and>
        buffer (fs ! j) = None)"
proof -
  let ?g = "\<lambda>i. frame_info.extend (the (frameInfo r i))
              (frame.fields (fold assign (blit r i) (replicate (reader_width r * reader_height r * 4) 0)) None)"
  have dec: "decodeFrame r i = Inr (?g i)" if "0 \<le> i" "i < numFrames r" for i
  proof -
    from assms(2) that obtain fi where "frameInfo r i = Some fi" by auto
    then show ?thesis by (simp add: decodeFrame_Inr)
  qed
  have idx: "frameIndices (numFrames r) = [0..numFrames r - 1]"
    using assms(1) by (simp add: frameIndices_def)
  have "map_throw (decodeFrame r) [0..numFrames r - 1] = Inr (map ?g [0..numFrames r - 1])"
    by (rule map_throw_all_Inr) (simp add: dec)
  then have res: "decodeFramesSync r = Inr (map ?g [0..numFrames r - 1])"
    by (simp add: decodeFramesSync_def idx)
  have len: "length (map ?g [0..numFrames r - 1]) = nat (numFrames r)" by simp
  have each: "decodeFrame r (int j) = Inr (map ?g [0..numFrames r - 1] ! j) \<and>
        frameInfo r (int j) = Some (frame_info.truncate (map ?g [0..numFrames r - 1] ! j)) \<and>
        length (pixels (map ?g [0..numFrames r - 1] ! j)) = reader_width r * reader_height r * 4 \<and>
        pixels (map ?g [0..numFrames r - 1] ! j) =
          fold assign (blit r (int j)) (replicate (reader_width r * reader_height r * 4) 0) \<and>
        buffer (map ?g [0..numFrames r - 1] ! j) = None"
    if "j < length (map ?g [0..numFrames r - 1])" for j
  proof -
    from that have j: "int j < numFrames r" by simp
    then have nth: "[0..numFrames r - 1] ! j = int j" by (simp add: nth_upto)
    from assms(2) j have "frameInfo r (int j) \<noteq> None" by simp
    then obtain fi where fi: "frameInfo r (int j) = Some fi" by auto
    from that have "map ?g [0..numFrames r - 1] ! j = ?g (int j)" by (simp add: nth)
    with fi dec[of "int j"] j show ?thesis
      by (simp add: extend_fields length_fold_assign)
  qed
  from res len each show ?thesis by blast
qed

theorem decodeFramesSync_decodes_every_frame_witness:
  "0 \<le> numFrames example_reader \<and>
   frameInfo example_reader 0 \<noteq> None \<and> frameInfo example_reader 1 \<noteq> None \<and>
   (\<exists>fs. decodeFramesSync example_reader = Inr fs \<and> length fs = 2 \<and>
      map pixels fs = [[255, 0, 0, 0, 0, 0, 0, 0], [0, 255, 0, 0, 0, 0, 0, 0]])"
proof -
  have 1: "0 \<le> numFrames example_reader" by (simp add: example_reader_def)
  have 2: "\<forall>i. 0 \<le> i \<and> i < numFrames example_reader \<longrightarrow> frameInfo example_reader i \<noteq> None"
    by (simp add: example_reader_def)
  have 3: "map_sum id (map pixels) (decodeFramesSync example_reader)
           = Inr [[255, 0, 0, 0, 0, 0, 0, 0], [0, 255, 0, 0, 0, 0, 0, 0]]" by code_simp
  have 4: "nat (numFrames example_reader) = 2" by (simp add: example_reader_def)
  have 5: "frameInfo example_reader 0 \<noteq> None" "frameInfo example_reader 1 \<noteq> None"
    by (simp_all add: example_reader_def)
  have "\<exists>fs. decodeFramesSync example_reader = Inr fs \<and> length fs = nat (numFrames example_reader)"
    using decodeFramesSync_decodes_every_frame[OF 1 2]
    by (elim exE conjE) (intro exI conjI, assumption+)
  then obtain fs where fs: "decodeFramesSync example_reader = Inr fs"
    "length fs = nat (numFrames example_reader)" by (elim exE conjE)
  from 3 have "map pixels fs = [[255, 0, 0, 0, 0, 0, 0, 0], [0, 255, 0, 0, 0, 0, 0, 0]]"
    unfolding fs(1) by simp
  with fs 4 have "decodeFramesSync example_reader = Inr fs \<and> length fs = 2 \<and>
      map pixels fs = [[255, 0, 0, 0, 0, 0, 0, 0], [0, 255, 0, 0, 0, 0, 0, 0]]"
    by simp
  then have "\<exists>fs. decodeFramesSync example_reader = Inr fs \<and> length fs = 2 \<and>
      map pixels fs = [[255, 0, 0, 0, 0, 0, 0, 0], [0, 255, 0, 0, 0, 0, 0, 0]]" by (rule exI)
  with 1 5 show ?thesis by blast
qed

text \<open>
  C10. With a loop count other than 0 and at least one frame, in every state whose
  loop counter has not passed the loop count, \<^verbatim>\<open>_enqueueNextFrame\<close> returns, without
  an exception: either running, after exactly one \<^verbatim>\<open>setTimeout\<close> call with a
  non-negative delay, or stopped, with nothing scheduled, and then (if it was running
  before) with the loop counter equal to the loop count. Each further pass through the
  loop makes the pair \<open>remaining\<close> (loops still allowed, frames left in the pass)
  smaller in the lexicographic order. Every state reached from the constructor by any
  sequence of events, for a loop count other than 0 and at least one frame, is such a
  state: its loop counter is at most the loop count and it has a frame.
\<close>

theorem catch_up_terminates:
  "(loopCount w \<noteq> 0 \<and> loops w \<le> loopCount w \<and> frames w \<noteq> [] \<longrightarrow>
      (\<exists>w'. enqueueNextFrame h w = Some (Inr w') \<and>
         ((running w' \<and> (\<exists>d\<ge>0. timeouts w' = timeouts w @ [d] \<and> trace w' = trace w @ [SetTimeout d])) \<or>
          (\<not> running w' \<and> timeouts w' = timeouts w \<and> trace w' = trace w \<and>
           (running w \<longrightarrow> loops w' = loopCount w'))))) \<and>
   (loopCount w \<noteq> 0 \<and> loops w \<le> loopCount w \<and> frameIndex w < length (frames w) \<and>
    running (advanceFrame w) \<longrightarrow> lex_less (remaining (advanceFrame w)) (remaining w)) \<and>
   (k \<noteq> 0 \<and> fs \<noteq> [] \<and> run h es (new_animator fs gw gh k cv) = Some (Inr w2) \<longrightarrow>
      loopCount w2 \<noteq> 0 \<and> loops w2 \<le> loopCount w2 \<and> frames w2 \<noteq> [])"
proof (intro conjI impI)
  assume a: "loopCount w \<noteq> 0 \<and> loops w \<le> loopCount w \<and> frames w \<noteq> []"
  let ?v = "advanceFrame w"
  from a have "loopCount ?v \<noteq> 0" "loops ?v \<le> loopCount ?v"
    "running ?v \<longrightarrow> frameIndex ?v < length (frames ?v)"
    using advanceFrame_loops_le[of w] advanceFrame_in_range[of w] by simp_all
  from enqueue_loop_terminates[OF this, of h]
  obtain w' where w': "enqueue_loop h ?v = Some (Inr w')" by blast
  have ex: "running w \<longrightarrow> running w' \<or> loops w' = loopCount w'"
    using enqueue_loop_exhausted[OF w'] advanceFrame_exhausted[of w] by blast
  from enqueue_loop_Inr[OF w'] ex
  have "(running w' \<and> (\<exists>d\<ge>0. timeouts w' = timeouts w @ [d] \<and> trace w' = trace w @ [SetTimeout d])) \<or>
          (\<not> running w' \<and> timeouts w' = timeouts w \<and> trace w' = trace w \<and>
           (running w \<longrightarrow> loops w' = loopCount w'))" by auto
  with w' show "\<exists>w'. enqueueNextFrame h w = Some (Inr w') \<and>
         ((running w' \<and> (\<exists>d\<ge>0. timeouts w' = timeouts w @ [d] \<and> trace w' = trace w @ [SetTimeout d])) \<or>
          (\<not> running w' \<and> timeouts w' = timeouts w \<and> trace w' = trace w \<and>
           (running w \<longrightarrow> loops w' = loopCount w')))"
    unfolding enqueueNextFrame_def by blast
next
  assume "loopCount w \<noteq> 0 \<and> loops w \<le> loopCount w \<and> frameIndex w < length (frames w) \<and>
    running (advanceFrame w)"
  then show "lex_less (remaining (advanceFrame w)) (remaining w)"
    by (intro advanceFrame_remaining) simp_all
next
  assume a: "k \<noteq> 0 \<and> fs \<noteq> [] \<and> run h es (new_animator fs gw gh k cv) = Some (Inr w2)"
  then have r: "run h es (new_animator fs gw gh k cv) = Some (Inr w2)" by simp
  from run_loops_le[OF r] a
  show "loopCount w2 \<noteq> 0" and "loops w2 \<le> loopCount w2" by (simp_all add: new_animator_def)
  from run_length_frames[OF r] a show "frames w2 \<noteq> []" by (auto simp: new_animator_def)
qed

theorem catch_up_terminates_witness:
  "loopCount (start late_host example_world) \<noteq> 0 \<and>
   loops (start late_host example_world) \<le> loopCount (start late_host example_world) \<and>
   frames (start late_host example_world) \<noteq> [] \<and>
   returned (enqueueNextFrame late_host (start late_host example_world)) \<and>
   frameIndex (start late_host example_world) < length (frames (start late_host example_world)) \<and>
   running (advanceFrame (start late_host example_world)) \<and>
   lex_less (remaining (advanceFrame (start late_host example_world)))
     (remaining (start late_host example_world)) \<and>
   (1 :: nat) \<noteq> 0 \<and> example_frames \<noteq> [] \<and>
   returned (run late_host (Start # ticks 5) (new_animator example_frames 1 1 1 [0, 0, 0, 0])) \<and>
   playback (world_after late_host (Start # ticks 5) (new_animator example_frames 1 1 1 [0, 0, 0, 0]))
     = (False, 3, 1, [0, 1, 2])"
proof -
  let ?w = "start late_host example_world"
  have 1: "loopCount ?w \<noteq> 0" by code_simp
  have 2: "loops ?w \<le> loopCount ?w" by code_simp
  have 3: "frames ?w \<noteq> []" by code_simp
  have 4: "frameIndex ?w < length (frames ?w)" by code_simp
  have 5: "running (advanceFrame ?w)" by code_simp
  have 6: "returned (run late_host (Start # ticks 5) (new_animator example_frames 1 1 1 [0, 0, 0, 0]))"
    by code_simp
  have 7: "playback (world_after late_host (Start # ticks 5) (new_animator example_frames 1 1 1 [0, 0, 0, 0]))
     = (False, 3, 1, [0, 1, 2])" by code_simp
  note t = catch_up_terminates[of ?w late_host]
  from t 1 2 3 obtain w' where "enqueueNextFrame late_host ?w = Some (Inr w')" by blast
  then have 8: "returned (enqueueNextFrame late_host ?w)" by (simp add: returned_def)
  from t 1 2 4 5 have 9: "lex_less (remaining (advanceFrame ?w)) (remaining ?w)" by blast
  have 10: "(1 :: nat) \<noteq> 0" by simp
  have 11: "example_frames \<noteq> []" by (simp add: example_frames_def)
  from 1 2 3 4 5 6 7 8 9 10 11 show ?thesis by blast
qed

end
